theory Spec2Isabelle
  imports Complex_Main "HOL-Library.Multiset" "HOL-Library.Log_Nat"
begin

section \<open>The permutation and enrichment engine of prowler/stats.py\<close>

text \<open>
  Tables (pandas data frames) are lists of rows, a row a record of its cells. Every
  exception the Python raises is a value of \<open>error\<close>, and a function that may raise
  returns \<open>error + 'a\<close> with the exception on the left.
\<close>

datatype error =
    ValueError string
  | OverflowError
  | AttributeError string
  | UnboundLocalError string
  | ZeroDivisionError
  | IndexError
  | ScorerError

text \<open>
  \<open>DataFrame.apply\<close>, \<open>Series.apply\<close> and the pool's \<open>map\<close> call a function on each entry in
  order; the first call that raises makes the whole call raise.
\<close>

fun map_err :: "('a \<Rightarrow> error + 'b) \<Rightarrow> 'a list \<Rightarrow> error + 'b list" where
  "map_err f [] = Inr []"
| "map_err f (x # xs) =
     (case f x of
        Inl e \<Rightarrow> Inl e
      | Inr y \<Rightarrow> (case map_err f xs of Inl e \<Rightarrow> Inl e | Inr ys \<Rightarrow> Inr (y # ys)))"

subsection \<open>Binary64 arithmetic\<close>

text \<open>
  Python's \<open>float\<close> is the IEEE 754 binary64 format. A finite float is modelled by the
  rational it denotes, and \<open>fl64\<close> rounds a rational to the nearest float, ties to the even
  significand, with gradual underflow: the significand has 53 bits and the least exponent
  of a unit in the last place is \<open>-1074\<close>. The float operations \<open>+\<close>, \<open>-\<close>, \<open>*\<close>, \<open>/\<close> and
  the conversion of an integer return the rounded exact result. A result of magnitude
  \<open>2^1024\<close> or more is an infinity; the places where one can arise say what follows.
  Logarithms are not rounded: \<open>math.log\<close> is the real logarithm of its float argument, and
  what is computed from logarithms is computed in the reals.
\<close>

definition pow2 :: "int \<Rightarrow> rat" where
  "pow2 e = (if 0 \<le> e then 2 ^ nat e else 1 / 2 ^ nat (- e))"

text \<open>\<open>ilog2 x\<close> is the exponent of the leading bit of \<open>x > 0\<close>: \<open>2^(ilog2 x) \<le> x < 2^(ilog2 x + 1)\<close>.\<close>

definition ilog2 :: "rat \<Rightarrow> int" where
  "ilog2 x = (let (a, b) = quotient_of x; e = bitlen a - bitlen b
              in if pow2 e \<le> x then e else e - 1)"

definition round_half_even :: "rat \<Rightarrow> int" where
  "round_half_even x =
     (let f = \<lfloor>x\<rfloor>; d = x - of_int f
      in if d < 1 / 2 then f else if 1 / 2 < d then f + 1 else if even f then f else f + 1)"

definition fl64 :: "rat \<Rightarrow> rat" where
  "fl64 x =
     (if x = 0 then 0
      else let e = max (ilog2 \<bar>x\<bar> - 52) (- 1074)
           in sgn x * of_int (round_half_even (\<bar>x\<bar> / pow2 e)) * pow2 e)"

text \<open>\<open>float(i)\<close> of an integer: OverflowError when the rounded value is out of range.\<close>

definition py_float :: "int \<Rightarrow> error + rat" where
  "py_float i = (let x = fl64 (of_int i) in if pow2 1024 \<le> \<bar>x\<bar> then Inl OverflowError else Inr x)"

text \<open>\<open>int(x)\<close> of a finite float: truncation towards zero.\<close>

definition py_int :: "rat \<Rightarrow> int" where
  "py_int x = (if 0 \<le> x then \<lfloor>x\<rfloor> else \<lceil>x\<rceil>)"

text \<open>\<open>math.log(x)\<close>: ValueError("math domain error") unless \<open>x > 0\<close>.\<close>

definition math_log :: "rat \<Rightarrow> error + real" where
  "math_log x = (if x \<le> 0 then Inl (ValueError ''math domain error'') else Inr (ln (real_of_rat x)))"

subsection \<open>The combinatorics: \<open>_log_binomial_coeff\<close> and \<open>_score\<close>\<close>

text \<open>
  Lines 69-80. \<open>n = float(n)\<close>; when \<open>k > n / 2\<close>, \<open>k = int(n - k)\<close>, where the integer \<open>k\<close>
  is converted to a float for the subtraction and \<open>int\<close> of an infinite difference raises
  OverflowError; then the loop over \<open>range(1, k + 1)\<close> adds \<open>math.log((n - i + 1.0) / float(i))\<close>
  to \<open>w\<close>. (Inside the loop \<open>1 \<le> i \<le> n / 2\<close>, so no conversion and no operation leaves the
  finite floats there.)
\<close>

fun log_binomial_loop :: "rat \<Rightarrow> int list \<Rightarrow> real \<Rightarrow> error + real" where
  "log_binomial_loop n [] w = Inr w"
| "log_binomial_loop n (i # is) w =
     (case math_log (fl64 (fl64 (fl64 (n - fl64 (of_int i)) + 1) / fl64 (of_int i))) of
        Inl e \<Rightarrow> Inl e
      | Inr l \<Rightarrow> log_binomial_loop n is (w + l))"

definition int_of_difference :: "rat \<Rightarrow> int \<Rightarrow> error + int" where
  "int_of_difference n k =
     (case py_float k of
        Inl e \<Rightarrow> Inl e
      | Inr kf \<Rightarrow>
          (let d = fl64 (n - kf) in if pow2 1024 \<le> \<bar>d\<bar> then Inl OverflowError else Inr (py_int d)))"

definition log_binomial_coeff :: "int \<Rightarrow> int \<Rightarrow> error + real" where
  "log_binomial_coeff n k =
     (case py_float n of
        Inl e \<Rightarrow> Inl e
      | Inr nf \<Rightarrow>
          (case (if of_int k > fl64 (nf / 2) then int_of_difference nf k else Inr k) of
             Inl e \<Rightarrow> Inl e
           | Inr k' \<Rightarrow> log_binomial_loop nf [1..k'] 0))"

text \<open>
  Lines 82-97. The first two arguments go through \<open>int\<close>; the sum is evaluated left to
  right, each product converting its integer factor to a float.
\<close>

definition score :: "rat \<Rightarrow> rat \<Rightarrow> rat \<Rightarrow> error + real" where
  "score hit_num prot_num background_p =
     (let prot = py_int prot_num; hit = py_int hit_num in
      case log_binomial_coeff prot hit of Inl e \<Rightarrow> Inl e | Inr c \<Rightarrow>
      (case math_log background_p of Inl e \<Rightarrow> Inl e | Inr lp \<Rightarrow>
      (case py_float hit of Inl e \<Rightarrow> Inl e | Inr h \<Rightarrow>
      (case math_log (fl64 (1 - background_p)) of Inl e \<Rightarrow> Inl e | Inr lq \<Rightarrow>
      (case py_float (prot - hit) of Inl e \<Rightarrow> Inl e | Inr d \<Rightarrow>
         Inr (c + real_of_rat h * lp + real_of_rat d * lq))))))"

subsection \<open>\<open>calculate_enrichment\<close>\<close>

text \<open>
  \<open>df.groupby(by=[col]).size()\<close> followed by \<open>reset_index()\<close>: one row per distinct value of
  the column, in ascending order of the value, with the number of rows holding it.
\<close>

definition groupby_size :: "('r \<Rightarrow> 'c::linorder) \<Rightarrow> 'r list \<Rightarrow> ('c \<times> nat) list" where
  "groupby_size col df =
     (let keys = map col df in map (\<lambda>c. (c, count_list keys c)) (sort (remdups keys)))"

text \<open>
  A cell numpy computes without raising: a finite number, an infinity or NaN.
\<close>

datatype npfloat = Finite real | PosInf | NegInf | NaN

record 'c enrichment_row =
  category :: 'c
  COUNT :: nat
  P :: "rat option"
  COUNT_EXP :: "rat option"
  SCORE :: "real option"
  SCORE_EXP :: real
  FOLD_CHNG :: npfloat

text \<open>
  Line 128: the background probabilities are computed from the bins of \<open>total\<close>, one per
  bin, as a series indexed \<open>0, 1, ...\<close>; assigning the series to a column of
  \<open>selected_bins\<close> aligns it on the row index, so row \<open>i\<close> of \<open>selected_bins\<close> receives the
  probability of bin \<open>i\<close> of \<open>total\<close>, and NaN (\<open>None\<close>) when \<open>total\<close> has no bin \<open>i\<close>.
\<close>

definition background_p :: "nat \<Rightarrow> nat \<Rightarrow> error + rat" where
  "background_p len_total x =
     (case py_float (int x) of Inl e \<Rightarrow> Inl e | Inr xf \<Rightarrow>
      (case py_float (int len_total) of Inl e \<Rightarrow> Inl e | Inr lf \<Rightarrow>
         if lf = 0 then Inl ZeroDivisionError else Inr (fl64 (xf / lf))))"

definition align :: "'a list \<Rightarrow> nat \<Rightarrow> 'a option list" where
  "align series m = map (\<lambda>i. if i < length series then Some (series ! i) else None) [0..<m]"

text \<open>Line 129: \<open>len(selected) * x[P]\<close>; NaN stays NaN.\<close>

definition count_exp :: "nat \<Rightarrow> rat option \<Rightarrow> rat option" where
  "count_exp len_selected p = map_option (\<lambda>p. fl64 (fl64 (of_nat len_selected) * p)) p"

text \<open>
  Lines 131-134: the score of a row. With a NaN probability both logarithms are NaN and
  nothing raises.
\<close>

definition score_cell :: "nat \<Rightarrow> nat \<Rightarrow> rat option \<Rightarrow> error + real option" where
  "score_cell cnt len_selected p =
     (case p of
        None \<Rightarrow> (case log_binomial_coeff (int len_selected) (int cnt) of
                   Inl e \<Rightarrow> Inl e | Inr c \<Rightarrow> Inr None)
      | Some p \<Rightarrow> (case score (of_nat cnt) (of_nat len_selected) p of
                   Inl e \<Rightarrow> Inl e | Inr s \<Rightarrow> Inr (Some s)))"

text \<open>
  Lines 135-138: the expected score of a row, \<open>_score\<close> of the expected count; \<open>int\<close> of a
  NaN expected count raises ValueError.
\<close>

definition score_exp_cell :: "rat option \<Rightarrow> nat \<Rightarrow> rat option \<Rightarrow> error + real" where
  "score_exp_cell ce len_selected p =
     (case (ce, p) of
        (Some ce, Some p) \<Rightarrow> score ce (of_nat len_selected) p
      | _ \<Rightarrow> Inl (ValueError ''cannot convert float NaN to integer''))"

text \<open>
  Lines 139-140: \<open>np.log2(COUNT / COUNT_EXP)\<close> on whole columns, which never raises: a
  division by zero gives an infinity, the logarithm of 0 is \<open>-inf\<close>.
\<close>

definition fold_chng :: "nat \<Rightarrow> rat option \<Rightarrow> npfloat" where
  "fold_chng cnt ce =
     (case ce of
        None \<Rightarrow> NaN
      | Some ce \<Rightarrow>
          if ce = 0 then (if cnt = 0 then NaN else PosInf)
          else (let q = fl64 (fl64 (of_nat cnt) / ce) in
                if q < 0 then NaN
                else if q = 0 then NegInf
                else if pow2 1024 \<le> q then PosInf
                else Finite (log 2 (real_of_rat q))))"

definition calculate_enrichment ::
  "('r \<Rightarrow> 'c::linorder) \<Rightarrow> 'r list \<Rightarrow> 'r list \<Rightarrow> error + 'c enrichment_row list" where
  "calculate_enrichment col selected_df total_df =
     (if length selected_df = 0 \<or> length total_df = 0
      then Inl (ValueError ''selected and total dataframes must not be empty.'')
      else if length selected_df > length total_df
      then Inl (ValueError ''selected must not be longer bigger than total.'')
      else
        let selected_bins = groupby_size col selected_df;
            expected_bins = groupby_size col total_df
        in case map_err (background_p (length total_df)) (map snd expected_bins) of
             Inl e \<Rightarrow> Inl e
           | Inr series \<Rightarrow>
               (let with_p = zip selected_bins (align series (length selected_bins));
                    with_count_exp = map (\<lambda>((c, n), p). (c, n, p, count_exp (length selected_df) p)) with_p
                in case map_err (\<lambda>(c, n, p, ce).
                          case score_cell n (length selected_df) p of
                            Inl e \<Rightarrow> Inl e | Inr s \<Rightarrow> Inr (c, n, p, ce, s)) with_count_exp of
                     Inl e \<Rightarrow> Inl e
                   | Inr with_score \<Rightarrow>
                       map_err (\<lambda>(c, n, p, ce, s).
                          case score_exp_cell ce (length selected_df) p of
                            Inl e \<Rightarrow> Inl e
                          | Inr se \<Rightarrow>
                              Inr \<lparr>category = c, COUNT = n, P = p, COUNT_EXP = ce, SCORE = s,
                                   SCORE_EXP = se, FOLD_CHNG = fold_chng n ce\<rparr>) with_score))"

subsection \<open>Interaction tables\<close>

text \<open>
  One row of the interaction table: the two entity identifiers under both naming schemes,
  the two profiles (strings over the profile alphabet), the profile similarity score and
  the remaining cells (fitness values, interaction score, ...), which no permutation reads.
\<close>

record inter_row =
  ORF_Q :: string
  ORF_A :: string
  GENE_Q :: string
  GENE_A :: string
  PROF_Q :: string
  PROF_A :: string
  PSS :: real
  other :: "string list"

text \<open>
  What \<open>drop\<close> leaves of a row when the profile columns and the score go
  (\<open>drop_prof_temp_df\<close>).
\<close>

record dropped_row =
  d_ORF_Q :: string
  d_ORF_A :: string
  d_GENE_Q :: string
  d_GENE_A :: string
  d_other :: "string list"

text \<open>
  The table of a trial of \<open>permute_profiles\<close> and \<open>KO_profs_perm\<close> after the two left
  merges: the columns \<open>drop\<close> kept, and from each merge the key column of the right table
  and the profile, both missing (NaN) where the left key found no partner; then the same
  with the score.
\<close>

record merged_row = dropped_row +
  m_ORF_right_Q :: "string option"
  m_PROF_Q :: "string option"
  m_ORF_right_A :: "string option"
  m_PROF_A :: "string option"

record scored_row = merged_row +
  m_PSS :: real

text \<open>The table of a trial of \<open>prof_arr_perm\<close>: the kept columns, the two profiles looked up
  in the permuted catalogue, and the score.\<close>

record permuted_row = dropped_row +
  p_PROF_Q :: string
  p_PROF_A :: string
  p_PSS :: real

subsection \<open>Sampling\<close>

text \<open>
  \<open>Series.sample(len(s))\<close> returns the entries of \<open>s\<close> in a random order, each once.
  The order drawn is a parameter of the model: the list of positions, in the order they
  were drawn. A draw for a series of \<open>n\<close> entries is a permutation of \<open>0..<n\<close>.
\<close>

definition is_draw :: "nat list \<Rightarrow> nat \<Rightarrow> bool" where
  "is_draw perm n = (sort perm = [0..<n])"

definition sample :: "nat list \<Rightarrow> 'a list \<Rightarrow> 'a list" where
  "sample perm xs = map (\<lambda>i. xs ! i) perm"

subsection \<open>Classification of the scored rows\<close>

text \<open>
  The three masks every trial computes from the score column and the threshold
  \<open>in_prof_sim_lev\<close> (stats.py, lines 202-210, 465-473, 525-533, 603-611, 680-688), and
  the number of rows each mask selects.
\<close>

definition sim_prof_bool :: "real \<Rightarrow> real \<Rightarrow> bool" where
  "sim_prof_bool in_prof_sim_lev pss = (pss \<ge> in_prof_sim_lev)"

definition unsim_prof_bool :: "real \<Rightarrow> real \<Rightarrow> bool" where
  "unsim_prof_bool in_prof_sim_lev pss = (pss < in_prof_sim_lev \<and> pss > 0)"

definition mir_prof_bool :: "real \<Rightarrow> bool" where
  "mir_prof_bool pss = (pss = 0)"

definition sim_prof_perm_num :: "real \<Rightarrow> real list \<Rightarrow> nat" where
  "sim_prof_perm_num in_prof_sim_lev col = length (filter (sim_prof_bool in_prof_sim_lev) col)"

definition unsim_prof_perm_num :: "real \<Rightarrow> real list \<Rightarrow> nat" where
  "unsim_prof_perm_num in_prof_sim_lev col = length (filter (unsim_prof_bool in_prof_sim_lev) col)"

definition mir_prof_perm_num :: "real list \<Rightarrow> nat" where
  "mir_prof_perm_num col = length (filter mir_prof_bool col)"

text \<open>How many of the three masks select a score.\<close>

definition classes_of :: "real \<Rightarrow> real \<Rightarrow> nat" where
  "classes_of in_prof_sim_lev pss =
     (if sim_prof_bool in_prof_sim_lev pss then 1 else 0) +
     (if unsim_prof_bool in_prof_sim_lev pss then 1 else 0) +
     (if mir_prof_bool pss then 1 else 0)"

subsection \<open>The result of one trial and the table of all trials\<close>

text \<open>
  The dictionary a trial returns. \<open>permute_profiles\<close> writes the second count under the
  key \<open>dissimilar\<close>, the methods of \<open>Ortho_Stats\<close> under \<open>unsimilar\<close>; it is one field
  here, and each method reads it back under the key it wrote.
\<close>

record 'df trial_result =
  similar :: nat
  dissimilar :: nat
  mirror :: nat
  iteration :: nat
  dataframe :: "'df option"



subsection \<open>Strategy 4: the permuted catalogue of \<open>prof_arr_perm\<close>\<close>

text \<open>
  The catalogue \<open>gene_profiles\<close> is a list of entries, the entity name first and the
  profile after it. Lines 567-580: the names are split from the profiles (\<open>i[0]\<close> raises
  IndexError on an empty entry), the names are sampled, and each sampled name is put in
  front of the profile at the same position.
\<close>

definition gene_profs_perm_arr_list :: "nat list \<Rightarrow> string list list \<Rightarrow> error + string list list" where
  "gene_profs_perm_arr_list perm gene_profs =
     (if [] \<in> set gene_profs then Inl IndexError
      else
        let gene_profs_names = map hd gene_profs;
            gene_profs_profs = map tl gene_profs;
            gene_profs_names_ser_perm = sample perm gene_profs_names
        in Inr (map (\<lambda>(name, prof). name # prof) (zip gene_profs_names_ser_perm gene_profs_profs)))"

subsection \<open>Strategy 1: the profiles shuffled among the entities\<close>

text \<open>\<open>drop_duplicates\<close> keeps the first of equal rows, in order.\<close>

fun drop_duplicates :: "'a list \<Rightarrow> 'a list" where
  "drop_duplicates [] = []"
| "drop_duplicates (x # xs) = x # drop_duplicates (filter (\<lambda>y. y \<noteq> x) xs)"

definition drop_prof_temp_df :: "inter_row list \<Rightarrow> dropped_row list" where
  "drop_prof_temp_df df =
     map (\<lambda>r. \<lparr>d_ORF_Q = ORF_Q r, d_ORF_A = ORF_A r, d_GENE_Q = GENE_Q r, d_GENE_A = GENE_A r,
               d_other = other r\<rparr>) df"

text \<open>
  Lines 166-181 and 644-659: the (entity, profile) pairs of the query columns stacked on
  those of the array columns, without duplicates.
\<close>

definition stack_ORF_prof_df :: "inter_row list \<Rightarrow> (string \<times> string) list" where
  "stack_ORF_prof_df df =
     drop_duplicates (map (\<lambda>r. (ORF_Q r, PROF_Q r)) df @ map (\<lambda>r. (ORF_A r, PROF_A r)) df)"

text \<open>Lines 182-186 and 660-664: the profile column sampled and put beside the entities.\<close>

definition ORF_prof_perm_df :: "nat list \<Rightarrow> inter_row list \<Rightarrow> (string \<times> string) list" where
  "ORF_prof_perm_df perm df =
     (let stack = stack_ORF_prof_df df in zip (map fst stack) (sample perm (map snd stack)))"

text \<open>
  \<open>pd.merge(left, right, left_on=key, right_on="ORF", how="left")\<close>: the rows of \<open>left\<close> in
  their order, each once per row of \<open>right\<close> with its key, and once with missing values
  when \<open>right\<close> has none.
\<close>

fun merge_left :: "('l \<Rightarrow> string) \<Rightarrow> (string \<times> 'v) list \<Rightarrow> 'l list \<Rightarrow> ('l \<times> (string \<times> 'v) option) list" where
  "merge_left key right [] = []"
| "merge_left key right (l # ls) =
     (let ms = filter (\<lambda>m. fst m = key l) right
      in (if ms = [] then [(l, None)] else map (\<lambda>m. (l, Some m)) ms) @ merge_left key right ls)"

text \<open>Lines 187-197 and 665-675: the two merges, on the query entity and on the array entity.\<close>

definition qa_merged_df :: "nat list \<Rightarrow> inter_row list \<Rightarrow> merged_row list" where
  "qa_merged_df perm df =
     (let right = ORF_prof_perm_df perm df;
          q_merged_df = merge_left d_ORF_Q right (drop_prof_temp_df df);
          qa = merge_left (\<lambda>(l, q). d_ORF_A l) right q_merged_df
      in map (\<lambda>((l, q), a).
            \<lparr>d_ORF_Q = d_ORF_Q l, d_ORF_A = d_ORF_A l, d_GENE_Q = d_GENE_Q l, d_GENE_A = d_GENE_A l,
             d_other = d_other l,
             m_ORF_right_Q = map_option fst q, m_PROF_Q = map_option snd q,
             m_ORF_right_A = map_option fst a, m_PROF_A = map_option snd a\<rparr>) qa)"

text \<open>
  Modelled from the spec: \<open>df_based_profiles_scorer\<close> is a function of \<open>utils\<close>, which is
  not among the sources. The spec (4.2, \<open>scoreTable\<close>): "vectorized application of
  scorePair over every row, appending a similarity column; preserves row order and row
  count". The pair scorer is a parameter; it may raise, and it is given the two profile
  cells of the row, which are missing where a merge found no partner.
\<close>

definition df_based_profiles_scorer ::
  "(string option \<Rightarrow> string option \<Rightarrow> error + real) \<Rightarrow> merged_row list \<Rightarrow> error + scored_row list" where
  "df_based_profiles_scorer score_pair df =
     map_err (\<lambda>r. case score_pair (m_PROF_Q r) (m_PROF_A r) of
                    Inl e \<Rightarrow> Inl e
                  | Inr s \<Rightarrow> Inr (merged_row.extend r (scored_row.fields s))) df"

text \<open>
  The trial \<open>f\<close> of \<open>Ortho_Stats.KO_profs_perm\<close> (lines 643-693).
\<close>

definition KO_profs_perm_f ::
  "(string option \<Rightarrow> string option \<Rightarrow> error + real) \<Rightarrow> real \<Rightarrow> inter_row list \<Rightarrow> nat list \<Rightarrow> nat
     \<Rightarrow> error + scored_row list trial_result" where
  "KO_profs_perm_f score_pair in_prof_sim_lev df perm in_iter =
     (case df_based_profiles_scorer score_pair (qa_merged_df perm df) of
        Inl e \<Rightarrow> Inl e
      | Inr qa_merged_score_df \<Rightarrow>
          Inr \<lparr>similar = sim_prof_perm_num in_prof_sim_lev (map m_PSS qa_merged_score_df),
               dissimilar = unsim_prof_perm_num in_prof_sim_lev (map m_PSS qa_merged_score_df),
               mirror = mir_prof_perm_num (map m_PSS qa_merged_score_df),
               iteration = in_iter + 1,
               dataframe = Some qa_merged_score_df\<rparr>)"

text \<open>
  The trial \<open>f\<close> of \<open>Stats.permute_profiles\<close> (lines 165-225): the same steps, but line 211
  deletes the local name \<open>qa_merged_score_df\<close> together with the intermediate tables, and
  both branches that follow read it (line 218 to return it, line 220 to delete it again):
  reading a deleted local raises UnboundLocalError.
\<close>

definition permute_profiles_f ::
  "(string option \<Rightarrow> string option \<Rightarrow> error + real) \<Rightarrow> real \<Rightarrow> bool \<Rightarrow> inter_row list \<Rightarrow> nat list \<Rightarrow> nat
     \<Rightarrow> error + scored_row list trial_result" where
  "permute_profiles_f score_pair in_prof_sim_lev store_dataframe df perm in_iter =
     (case df_based_profiles_scorer score_pair (qa_merged_df perm df) of
        Inl e \<Rightarrow> Inl e
      | Inr qa_merged_score_df \<Rightarrow>
          (let sim_num = sim_prof_perm_num in_prof_sim_lev (map m_PSS qa_merged_score_df);
               unsim_num = unsim_prof_perm_num in_prof_sim_lev (map m_PSS qa_merged_score_df);
               mir_num = mir_prof_perm_num (map m_PSS qa_merged_score_df)
           in if store_dataframe
              then Inl (UnboundLocalError ''qa_merged_score_df'')
              else Inl (UnboundLocalError ''qa_merged_score_df'')))"

subsection \<open>Strategies 2, 3 and 4: the other trials\<close>




subsection \<open>The entry points\<close>











subsection \<open>The hypothesis of strategy 1, and a small table\<close>

text \<open>
  Each entity identifier comes with one profile only, in whichever role it occurs: any two
  (entity, profile) pairs of the table with the same entity have the same profile.
\<close>

definition one_profile_per_ORF :: "inter_row list \<Rightarrow> bool" where
  "one_profile_per_ORF df =
     (let pairs = map (\<lambda>r. (ORF_Q r, PROF_Q r)) df @ map (\<lambda>r. (ORF_A r, PROF_A r)) df
      in list_all (\<lambda>x. list_all (\<lambda>y. fst x = fst y \<longrightarrow> snd x = snd y) pairs) pairs)"

text \<open>
  Two interactions of the entity \<open>a\<close>, and an object of \<open>Ortho_Stats\<close> holding them.
\<close>

definition toy_df :: "inter_row list" where
  "toy_df =
     [\<lparr>ORF_Q = ''a'', ORF_A = ''b'', GENE_Q = ''A'', GENE_A = ''B'', PROF_Q = ''+-'', PROF_A = ''--'',
       PSS = 1, other = []\<rparr>,
      \<lparr>ORF_Q = ''a'', ORF_A = ''c'', GENE_Q = ''A'', GENE_A = ''C'', PROF_Q = ''+-'', PROF_A = ''++'',
       PSS = 0, other = []\<rparr>]"


text \<open>
  Three tables with one column, of category codes: four rows with two categories, one row
  of the second category, and 49 rows of which one holds the first category.
\<close>

definition toy_total :: "nat list" where
  "toy_total = [0, 1, 1, 1]"

definition toy_selected :: "nat list" where
  "toy_selected = [1]"


section \<open>General facts\<close>

subsection \<open>Binary64 rounding\<close>

lemma pow2_powi: "pow2 e = 2 powi e"
proof (cases "0 \<le> e")
  case True
  then show ?thesis unfolding pow2_def power_int_def by simp
next
  case False
  have "inverse (2::rat) ^ nat (- e) = 1 / 2 ^ nat (- e)"
    by (simp only: inverse_eq_divide power_one_over)
  with False show ?thesis unfolding pow2_def power_int_def
    by (simp only: if_False)
qed

lemma pow2_pos: "0 < pow2 e"
  unfolding pow2_powi by simp

lemma pow2_add: "pow2 (a + b) = pow2 a * pow2 b"
  unfolding pow2_powi by (rule power_int_add) simp

lemma pow2_mono: "a \<le> b \<Longrightarrow> pow2 a \<le> pow2 b"
  unfolding pow2_powi by (rule power_int_increasing) simp_all

lemma pow2_strict_mono: "a < b \<Longrightarrow> pow2 a < pow2 b"
  unfolding pow2_powi by (rule power_int_strict_increasing) simp_all

lemma pow2_less_iff: "pow2 a < pow2 b \<longleftrightarrow> a < b"
  using pow2_mono [of b a] pow2_strict_mono [of a b] by (auto simp: not_less [symmetric])

lemma pow2_le_iff: "pow2 a \<le> pow2 b \<longleftrightarrow> a \<le> b"
  using pow2_mono [of a b] pow2_strict_mono [of b a] by (auto simp: not_le [symmetric])

lemma pow2_nat: "pow2 (int n) = 2 ^ n"
  by (simp add: pow2_def)

lemma pow2_0: "pow2 0 = 1"
  by (simp add: pow2_def)

lemma pow2_diff: "pow2 (a - b) = pow2 a / pow2 b"
proof -
  have "pow2 a = pow2 (a - b) * pow2 b"
    using pow2_add [of "a - b" b] by simp
  then show ?thesis
    using pow2_pos [of b] by simp
qed

text \<open>The leading bit is not above the number.\<close>

lemma pow2_ilog2_le:
  assumes "0 < x"
  shows "pow2 (ilog2 x) \<le> x"
proof -
  obtain a b where q: "quotient_of x = (a, b)" by (cases "quotient_of x")
  have b: "0 < b" using q by (rule quotient_of_denom_pos)
  have x: "x = of_int a / of_int b" using q by (rule quotient_of_div)
  have a: "0 < a"
    using assms b x by (simp add: zero_less_divide_iff)
  let ?e = "bitlen a - bitlen b"
  show ?thesis
  proof (cases "pow2 ?e \<le> x")
    case True
    then show ?thesis by (simp add: ilog2_def q)
  next
    case False
    have la: "(2::int) ^ nat (bitlen a - 1) \<le> a" using bitlen_bounds [OF a] by simp
    have lb: "b < (2::int) ^ nat (bitlen b)" using bitlen_bounds [OF b] by simp
    have ba: "1 \<le> bitlen a" using a by (simp add: bitlen_alt_def)
    have bb: "0 \<le> bitlen b" by (rule bitlen_nonneg)
    have la': "pow2 (bitlen a - 1) \<le> of_int a"
    proof -
      have "pow2 (bitlen a - 1) = of_int (2 ^ nat (bitlen a - 1))"
        using ba by (simp add: pow2_def)
      also have "\<dots> \<le> of_int a" using la by (simp only: of_int_le_iff)
      finally show ?thesis .
    qed
    have lb': "of_int b \<le> pow2 (bitlen b)"
    proof -
      have "(of_int b :: rat) \<le> of_int (2 ^ nat (bitlen b))" using lb by (simp only: of_int_le_iff less_imp_le)
      also have "\<dots> = pow2 (bitlen b)" using bb by (simp add: pow2_def)
      finally show ?thesis .
    qed
    have "pow2 (?e - 1) = pow2 (bitlen a - 1) / pow2 (bitlen b)"
      using pow2_diff [of "bitlen a - 1" "bitlen b"] by (simp add: algebra_simps)
    also have "\<dots> \<le> of_int a / pow2 (bitlen b)"
      using la' pow2_pos [of "bitlen b"] by (simp add: divide_right_mono)
    also have "\<dots> \<le> of_int a / of_int b"
      using lb' a b by (simp add: frac_le)
    finally have "pow2 (?e - 1) \<le> x" using x by simp
    then show ?thesis using False by (simp add: ilog2_def q)
  qed
qed

lemma ilog2_less:
  assumes "0 < x" "x < pow2 j"
  shows "ilog2 x < j"
  using pow2_ilog2_le [OF assms(1)] assms(2) pow2_less_iff [of "ilog2 x" j] by simp

lemma ilog2_le:
  assumes "0 < x" "x \<le> pow2 j"
  shows "ilog2 x \<le> j"
  using pow2_ilog2_le [OF assms(1)] assms(2) pow2_le_iff [of "ilog2 x" j] by simp


lemma round_half_even_of_int: "round_half_even (of_int m) = m"
  by (simp add: round_half_even_def)

lemma round_half_even_ge_one:
  assumes "1 \<le> y"
  shows "1 \<le> round_half_even y"
proof -
  have "1 \<le> \<lfloor>y\<rfloor>" using assms by (simp add: le_floor_iff)
  then show ?thesis by (simp add: round_half_even_def Let_def)
qed

lemma fl64_integral:
  assumes "x \<noteq> 0" and "\<bar>x\<bar> / pow2 (max (ilog2 \<bar>x\<bar> - 52) (- 1074)) = of_int j"
  shows "fl64 x = x"
proof -
  let ?e = "max (ilog2 \<bar>x\<bar> - 52) (- 1074)"
  have "fl64 x = sgn x * of_int (round_half_even (of_int j)) * pow2 ?e"
    using assms by (simp add: fl64_def Let_def)
  also have "\<dots> = sgn x * (\<bar>x\<bar> / pow2 ?e) * pow2 ?e"
    by (simp only: round_half_even_of_int assms(2))
  also have "\<dots> = sgn x * \<bar>x\<bar>"
    using pow2_pos [of ?e] by simp
  also have "\<dots> = x"
    by (simp add: sgn_mult_abs)
  finally show ?thesis .
qed

lemma fl64_exact:
  assumes "\<bar>m\<bar> \<le> 2 ^ 53" and "- 1074 \<le> e"
  shows "fl64 (of_int m * pow2 e) = of_int m * pow2 e"
proof (cases "m = 0")
  case True
  then show ?thesis by (simp add: fl64_def)
next
  case False
  let ?x = "of_int m * pow2 e :: rat"
  let ?e = "max (ilog2 \<bar>?x\<bar> - 52) (- 1074)"
  have x0: "?x \<noteq> 0" using False pow2_pos [of e] by simp
  have ax: "\<bar>?x\<bar> = of_int \<bar>m\<bar> * pow2 e"
    using pow2_pos [of e] by (simp add: abs_mult)
  have "of_int \<bar>m\<bar> \<le> (of_int (2 ^ 53) :: rat)"
    using assms(1) by (simp only: of_int_le_iff)
  then have "of_int \<bar>m\<bar> \<le> pow2 53"
    by (simp add: pow2_def)
  then have "\<bar>?x\<bar> \<le> pow2 53 * pow2 e"
    unfolding ax using pow2_pos [of e] by (simp add: mult_right_mono)
  then have up: "\<bar>?x\<bar> \<le> pow2 (53 + e)"
    by (simp add: pow2_add)
  have pos: "0 < \<bar>?x\<bar>" using x0 by simp
  have il: "ilog2 \<bar>?x\<bar> \<le> 53 + e"
    using ilog2_le [OF pos up] .
  have "\<exists>j. \<bar>?x\<bar> / pow2 ?e = of_int j"
  proof (cases "?e \<le> e")
    case True
    have "\<bar>?x\<bar> / pow2 ?e = of_int \<bar>m\<bar> * (pow2 e / pow2 ?e)"
      unfolding ax by simp
    also have "\<dots> = of_int \<bar>m\<bar> * pow2 (e - ?e)"
      by (simp only: pow2_diff)
    also have "\<dots> = of_int \<bar>m\<bar> * of_int (2 ^ nat (e - ?e))"
      using True by (simp add: pow2_def)
    also have "\<dots> = of_int (\<bar>m\<bar> * 2 ^ nat (e - ?e))"
      by simp
    finally show ?thesis by blast
  next
    case False
    then have eq: "ilog2 \<bar>?x\<bar> = 53 + e" and e': "?e = e + 1"
      using il assms(2) by auto
    have "pow2 (53 + e) \<le> \<bar>?x\<bar>"
      using pow2_ilog2_le [OF pos] eq by simp
    then have "\<bar>?x\<bar> = pow2 (53 + e)" using up by simp
    then have "\<bar>?x\<bar> / pow2 ?e = pow2 (53 + e) / pow2 (e + 1)"
      using e' by simp
    also have "\<dots> = pow2 52"
      using pow2_diff [of "53 + e" "e + 1"] by simp
    also have "\<dots> = of_int (2 ^ 52)"
      by (simp add: pow2_def)
    finally show ?thesis by blast
  qed
  then obtain j where "\<bar>?x\<bar> / pow2 ?e = of_int j" by blast
  then show ?thesis using fl64_integral [OF x0] by blast
qed

lemma fl64_of_int:
  assumes "\<bar>m\<bar> \<le> 2 ^ 53"
  shows "fl64 (of_int m) = of_int m"
  using fl64_exact [OF assms, of 0] by (simp add: pow2_def)

lemma fl64_half_int:
  assumes "\<bar>m\<bar> \<le> 2 ^ 53"
  shows "fl64 (of_int m / 2) = of_int m / 2"
  using fl64_exact [OF assms, of "- 1"] by (simp add: pow2_def)

lemma fl64_pos:
  assumes "pow2 (- 1074) \<le> x"
  shows "0 < fl64 x"
proof -
  let ?e = "max (ilog2 \<bar>x\<bar> - 52) (- 1074)"
  have x: "0 < x" using assms pow2_pos [of "- 1074"] by simp
  have "pow2 ?e \<le> x"
  proof (cases "ilog2 \<bar>x\<bar> - 52 \<le> - 1074")
    case True
    then show ?thesis using assms by (simp add: max_def)
  next
    case False
    then have "?e = ilog2 x - 52" using x by (simp add: max_def)
    moreover have "pow2 (ilog2 x - 52) \<le> pow2 (ilog2 x)"
      by (rule pow2_mono) simp
    ultimately show ?thesis using pow2_ilog2_le [OF x] by simp
  qed
  then have "1 \<le> \<bar>x\<bar> / pow2 ?e"
    using x pow2_pos [of ?e] by (simp add: le_divide_eq)
  then have "1 \<le> round_half_even (\<bar>x\<bar> / pow2 ?e)"
    by (rule round_half_even_ge_one)
  then have "0 < (of_int (round_half_even (\<bar>x\<bar> / pow2 ?e)) :: rat)"
    by simp
  then show ?thesis
    using x pow2_pos [of ?e] by (simp add: fl64_def Let_def)
qed

lemma round_half_even_nonneg:
  assumes "0 \<le> y"
  shows "0 \<le> round_half_even y"
proof -
  have "0 \<le> \<lfloor>y\<rfloor>" using assms by simp
  then show ?thesis by (simp add: round_half_even_def Let_def)
qed

lemma fl64_nonpos:
  assumes "x \<le> 0"
  shows "fl64 x \<le> 0"
proof (cases "x = 0")
  case True
  then show ?thesis by (simp add: fl64_def)
next
  case False
  let ?e = "max (ilog2 \<bar>x\<bar> - 52) (- 1074)"
  have "0 \<le> \<bar>x\<bar> / pow2 ?e" using pow2_pos [of ?e] by simp
  then have "0 \<le> (of_int (round_half_even (\<bar>x\<bar> / pow2 ?e)) :: rat)"
    using round_half_even_nonneg by simp
  then have "0 \<le> of_int (round_half_even (\<bar>x\<bar> / pow2 ?e)) * pow2 ?e"
    using pow2_pos [of ?e] by simp
  moreover have "sgn x = - 1" using False assms by simp
  ultimately show ?thesis
    using False by (simp add: fl64_def Let_def)
qed

text \<open>The largest double below 1 is \<open>1 - 2^-53\<close>: one minus a double below one does not underflow.\<close>

lemma one_minus_float_pos:
  assumes "fl64 p = p" and "0 < p" and "p < 1"
  shows "0 < fl64 (1 - p)"
proof -
  define e where "e = max (ilog2 \<bar>p\<bar> - 52) (- 1074)"
  define M where "M = round_half_even (\<bar>p\<bar> / pow2 e)"
  have p: "p = of_int M * pow2 e"
    using assms(1,2) by (simp add: fl64_def Let_def e_def M_def)
  have "p < pow2 0" using assms(3) by (simp add: pow2_def)
  then have "ilog2 p < 0" using ilog2_less [OF assms(2)] by simp
  then have e: "e \<le> 0" and e': "- 1074 \<le> e" using assms(2) by (simp_all add: e_def)
  define K where "K = (2::int) ^ nat (- e) - M"
  have "of_int (2 ^ nat (- e)) = pow2 (- e)" using e by (simp add: pow2_def)
  then have "of_int (2 ^ nat (- e)) * pow2 e = pow2 (- e + e)"
    by (simp only: pow2_add)
  then have one: "of_int (2 ^ nat (- e)) * pow2 e = 1" by (simp add: pow2_def)
  have "of_int K * pow2 e = of_int (2 ^ nat (- e)) * pow2 e - of_int M * pow2 e"
    unfolding K_def by (simp only: of_int_diff left_diff_distrib)
  then have d: "1 - p = of_int K * pow2 e"
    using one p by simp
  have "0 < of_int K * pow2 e" using assms(3) d by simp
  then have "0 < (of_int K :: rat)"
    using pow2_pos [of e] by (simp add: zero_less_mult_iff)
  then have "1 \<le> K" by simp
  then have "(of_int 1 :: rat) \<le> of_int K"
    by (simp only: of_int_le_iff)
  then have "1 * pow2 e \<le> of_int K * pow2 e"
    using pow2_pos [of e] by (simp add: mult_right_mono)
  then have "pow2 e \<le> 1 - p"
    using d by simp
  moreover have "pow2 (- 1074) \<le> pow2 e" using e' by (rule pow2_mono)
  ultimately have "pow2 (- 1074) \<le> 1 - p" by (rule order_trans [rotated])
  then show ?thesis by (rule fl64_pos)
qed

lemma pow2_ilog2_upper:
  assumes "0 < x"
  shows "x < pow2 (ilog2 x + 1)"
proof -
  obtain a b where q: "quotient_of x = (a, b)" by (cases "quotient_of x")
  have b: "0 < b" using q by (rule quotient_of_denom_pos)
  have x: "x = of_int a / of_int b" using q by (rule quotient_of_div)
  have a: "0 < a"
    using assms b x by (simp add: zero_less_divide_iff)
  let ?e = "bitlen a - bitlen b"
  show ?thesis
  proof (cases "pow2 ?e \<le> x")
    case False
    then show ?thesis by (simp add: ilog2_def q)
  next
    case True
    have la: "a < (2::int) ^ nat (bitlen a)" using bitlen_bounds [OF a] by simp
    have lb: "(2::int) ^ nat (bitlen b - 1) \<le> b" using bitlen_bounds [OF b] by simp
    have ba: "0 \<le> bitlen a" by (rule bitlen_nonneg)
    have bb: "1 \<le> bitlen b" using b by (simp add: bitlen_alt_def)
    have la': "of_int a < pow2 (bitlen a)"
    proof -
      have "(of_int a :: rat) < of_int (2 ^ nat (bitlen a))" using la by (simp only: of_int_less_iff)
      also have "\<dots> = pow2 (bitlen a)" using ba by (simp add: pow2_def)
      finally show ?thesis .
    qed
    have lb': "pow2 (bitlen b - 1) \<le> of_int b"
    proof -
      have "pow2 (bitlen b - 1) = of_int (2 ^ nat (bitlen b - 1))"
        using bb by (simp add: pow2_def)
      also have "\<dots> \<le> of_int b" using lb by (simp only: of_int_le_iff)
      finally show ?thesis .
    qed
    have "x = of_int a / of_int b" by (rule x)
    also have "\<dots> < pow2 (bitlen a) / of_int b"
      using la' b by (simp add: divide_strict_right_mono)
    also have "\<dots> \<le> pow2 (bitlen a) / pow2 (bitlen b - 1)"
      using lb' pow2_pos [of "bitlen b - 1"] pow2_pos [of "bitlen a"] by (simp add: frac_le)
    also have "\<dots> = pow2 (?e + 1)"
      using pow2_diff [of "bitlen a" "bitlen b - 1"] by (simp add: algebra_simps)
    finally show ?thesis using True by (simp add: ilog2_def q)
  qed
qed

lemma round_half_even_le:
  assumes "y \<le> of_int k"
  shows "round_half_even y \<le> k"
proof -
  let ?f = "\<lfloor>y\<rfloor>"
  have f: "?f \<le> k" using floor_mono [OF assms] by simp
  show ?thesis
  proof (cases "y = of_int ?f")
    case True
    then have "y - of_int ?f = 0" by simp
    then show ?thesis using f by (simp add: round_half_even_def Let_def)
  next
    case False
    then have "of_int ?f < y" by (intro le_neq_trans) auto
    then have "of_int ?f < (of_int k :: rat)" using assms by simp
    then have "?f < k" by (simp only: of_int_less_iff)
    then show ?thesis by (simp add: round_half_even_def Let_def)
  qed
qed

lemma fl64_idem: "fl64 (fl64 x) = fl64 x"
proof (cases "x = 0")
  case True
  then show ?thesis by (simp add: fl64_def)
next
  case False
  define e where "e = max (ilog2 \<bar>x\<bar> - 52) (- 1074)"
  define M where "M = round_half_even (\<bar>x\<bar> / pow2 e)"
  have pos: "0 < \<bar>x\<bar>" using False by simp
  have "\<bar>x\<bar> < pow2 (ilog2 \<bar>x\<bar> + 1)" by (rule pow2_ilog2_upper [OF pos])
  also have "\<dots> \<le> pow2 (e + 53)" unfolding e_def by (rule pow2_mono) simp
  also have "\<dots> = pow2 53 * pow2 e" by (simp add: pow2_add mult.commute)
  finally have "\<bar>x\<bar> / pow2 e < pow2 53"
    using pow2_pos [of e] by (simp add: divide_less_eq)
  then have "\<bar>x\<bar> / pow2 e \<le> of_int (2 ^ 53)" by (simp add: pow2_def)
  then have M: "M \<le> 2 ^ 53" unfolding M_def by (rule round_half_even_le)
  have "0 \<le> \<bar>x\<bar> / pow2 e" using pow2_pos [of e] by simp
  then have M0: "0 \<le> M" unfolding M_def by (rule round_half_even_nonneg)
  have fx: "fl64 x = of_int (if 0 < x then M else - M) * pow2 e"
    using False by (simp add: fl64_def Let_def e_def M_def sgn_if)
  have "\<bar>if 0 < x then M else - M\<bar> \<le> 2 ^ 53" using M M0 by simp
  moreover have "- 1074 \<le> e" by (simp add: e_def)
  ultimately show ?thesis unfolding fx by (rule fl64_exact)
qed

subsection \<open>Conversions and the combinatorics on arguments up to \<open>2^53\<close>\<close>

lemma pow2_53_less_1024: "(2::rat) ^ 53 < pow2 1024"
proof -
  have "pow2 53 < pow2 1024" by (rule pow2_strict_mono) simp
  then show ?thesis by (simp add: pow2_def)
qed

lemma not_overflow:
  assumes "x \<le> 2 ^ 60"
  shows "\<not> pow2 1024 \<le> x"
proof -
  have "pow2 60 < pow2 1024" by (rule pow2_strict_mono) simp
  then have "(2::rat) ^ 60 < pow2 1024" by (simp add: pow2_def)
  then show ?thesis using assms by simp
qed

lemma of_int_abs_bound:
  assumes "\<bar>m\<bar> \<le> 2 ^ 53"
  shows "\<bar>of_int m :: rat\<bar> < pow2 1024"
proof -
  have "\<bar>of_int m :: rat\<bar> = of_int \<bar>m\<bar>" by simp
  also have "\<dots> \<le> of_int (2 ^ 53)" using assms by (simp only: of_int_le_iff)
  also have "\<dots> = 2 ^ 53" by simp
  also have "\<dots> < pow2 1024" by (rule pow2_53_less_1024)
  finally show ?thesis .
qed

lemma py_float_exact:
  assumes "\<bar>m\<bar> \<le> 2 ^ 53"
  shows "py_float m = Inr (of_int m)"
  using fl64_of_int [OF assms] of_int_abs_bound [OF assms]
  by (simp add: py_float_def Let_def)

lemma py_int_of_int: "py_int (of_int z) = z"
  by (simp add: py_int_def)

lemma int_of_difference_exact:
  assumes "\<bar>n\<bar> \<le> 2 ^ 53" "\<bar>k\<bar> \<le> 2 ^ 53" "\<bar>n - k\<bar> \<le> 2 ^ 53"
  shows "int_of_difference (of_int n) k = Inr (n - k)"
proof -
  have "fl64 (of_int n - of_int k) = of_int (n - k)"
    using fl64_of_int [OF assms(3)] by simp
  moreover have "\<not> pow2 1024 \<le> \<bar>of_int (n - k) :: rat\<bar>"
    using of_int_abs_bound [OF assms(3)] by simp
  ultimately show ?thesis
    using py_float_exact [OF assms(2)] py_int_of_int [of "n - k"]
    by (simp add: int_of_difference_def Let_def del: of_int_diff)
qed

text \<open>With arguments up to \<open>2^53\<close> every conversion is exact, and the loop runs over
  \<open>1..min k (n - k)\<close>.\<close>

lemma log_binomial_coeff_bounded:
  assumes "0 \<le> n" "n \<le> 2 ^ 53" "0 \<le> k" "k \<le> 2 ^ 53"
  shows "log_binomial_coeff n k =
           log_binomial_loop (of_int n) [1..(if n < 2 * k then n - k else k)] 0"
proof -
  have n: "\<bar>n\<bar> \<le> 2 ^ 53" and k: "\<bar>k\<bar> \<le> 2 ^ 53" and d: "\<bar>n - k\<bar> \<le> 2 ^ 53"
    using assms by auto
  have half: "fl64 (of_int n / 2) = of_int n / 2"
    by (rule fl64_half_int [OF n])
  have cmp: "(of_int k > (of_int n / 2 :: rat)) = (n < 2 * k)"
  proof -
    have "(of_int k > (of_int n / 2 :: rat)) = ((of_int n :: rat) < of_int (2 * k))"
      by (simp add: field_simps)
    also have "\<dots> = (n < 2 * k)" by (simp only: of_int_less_iff)
    finally show ?thesis .
  qed
  show ?thesis
    using py_float_exact [OF n] half cmp int_of_difference_exact [OF n k d]
    by (simp add: log_binomial_coeff_def)
qed

lemma log_binomial_loop_returns:
  assumes "0 \<le> n" "n \<le> 2 ^ 53" "\<forall>i \<in> set is. 1 \<le> i \<and> i \<le> n"
  shows "\<exists>w'. log_binomial_loop (of_int n) is w = Inr w'"
  using assms(3)
proof (induction "is" arbitrary: w)
  case Nil
  then show ?case by simp
next
  case (Cons i "is")
  have i: "1 \<le> i" "i \<le> n" using Cons.prems by simp_all
  have fi: "fl64 (of_int i) = of_int i"
    using i assms by (intro fl64_of_int) simp
  have "fl64 (of_int n - of_int i) = of_int (n - i)"
    using fl64_of_int [of "n - i"] i assms by simp
  moreover have "fl64 (of_int (n - i) + 1) = of_int (n - i + 1)"
    using fl64_of_int [of "n - i + 1"] i assms by simp
  ultimately have num: "fl64 (fl64 (of_int n - fl64 (of_int i)) + 1) = of_int (n - i + 1)"
    using fi by simp
  have "pow2 (- 1074) \<le> pow2 (- 53)" by (rule pow2_mono) simp
  also have "pow2 (- 53) = 1 / 2 ^ 53" by (simp add: pow2_def)
  also have "\<dots> \<le> 1 / of_int i"
  proof -
    have "(of_int i :: rat) \<le> of_int (2 ^ 53)"
      using i assms by (simp only: of_int_le_iff)
    then show ?thesis using i by (simp add: frac_le)
  qed
  also have "\<dots> \<le> of_int (n - i + 1) / of_int i"
  proof -
    have "(of_int 1 :: rat) \<le> of_int (n - i + 1)"
      using i by (simp only: of_int_le_iff)
    then show ?thesis using i by (simp add: divide_right_mono)
  qed
  finally have "0 < fl64 (of_int (n - i + 1) / of_int i)"
    by (rule fl64_pos)
  then obtain l where "math_log (fl64 (fl64 (fl64 (of_int n - fl64 (of_int i)) + 1) / fl64 (of_int i))) = Inr l"
    using num fi by (simp add: math_log_def)
  then show ?case
    using Cons.IH [of "w + l"] Cons.prems by simp
qed

lemma log_binomial_coeff_returns:
  assumes "0 \<le> n" "n \<le> 2 ^ 53" "0 \<le> k" "k \<le> 2 ^ 53"
  shows "\<exists>w. log_binomial_coeff n k = Inr w"
proof -
  have "\<forall>i \<in> set [1..(if n < 2 * k then n - k else k)]. 1 \<le> i \<and> i \<le> n"
    using assms by auto
  then show ?thesis
    using log_binomial_coeff_bounded [OF assms] log_binomial_loop_returns [OF assms(1,2)]
    by simp
qed

lemma small_vals:
  "fl64 (1 / 2) = 1 / 2" "fl64 (1 - 1 / 2) = 1 / 2" "fl64 (2 / 2) = 1" "fl64 (2 - 3) = - 1"
  "fl64 3 = 3" "fl64 (- 1) = - 1" "fl64 2 = 2" "fl64 0 = 0" "fl64 1 = 1"
  by code_simp+

lemma small_bounds:
  "\<not> pow2 1024 \<le> 3" "\<not> pow2 1024 \<le> 2" "\<not> pow2 1024 \<le> 1" "\<not> pow2 1024 \<le> 0"
  by (rule not_overflow, simp)+

lemma big_vals:
  "fl64 9007199254740994 = 9007199254740994"
  "fl64 (9007199254740994 / 2) = 4503599627370497"
  "fl64 9007199254740993 = 9007199254740992"
  "fl64 (9007199254740994 - 9007199254740992) = 2"
  "fl64 1 = 1" "fl64 2 = 2"
  "fl64 (9007199254740994 - 1) = 9007199254740992"
  "fl64 (9007199254740992 + 1) = 9007199254740992"
  "fl64 (9007199254740992 / 1) = 9007199254740992"
  "fl64 (9007199254740994 - 2) = 9007199254740992"
  "fl64 (9007199254740992 / 2) = 4503599627370496"
  by code_simp+

lemma big_bounds:
  "\<not> pow2 1024 \<le> \<bar>9007199254740994\<bar>" "\<not> pow2 1024 \<le> \<bar>9007199254740992\<bar>" "\<not> pow2 1024 \<le> \<bar>2\<bar>"
  by (rule not_overflow, simp)+

subsection \<open>Calls in sequence\<close>

lemma map_err_Inr:
  "map_err f xs = Inr ys \<Longrightarrow> list_all2 (\<lambda>x y. f x = Inr y) xs ys"
  by (induction xs arbitrary: ys) (auto split: sum.splits)

lemma map_err_total:
  "(\<forall>x \<in> set xs. \<exists>y. f x = Inr y) \<Longrightarrow> \<exists>ys. map_err f xs = Inr ys"
  by (induction xs) (auto split: sum.splits)

subsection \<open>Sampling\<close>

lemma is_draw_length: "is_draw perm n \<Longrightarrow> length perm = n"
  unfolding is_draw_def by (metis length_sort length_upt minus_nat.diff_0)

lemma is_draw_mset: "is_draw perm n \<Longrightarrow> mset perm = mset [0..<n]"
  unfolding is_draw_def by (metis mset_sort)

lemma is_draw_set: "is_draw perm n \<Longrightarrow> set perm = {0..<n}"
  unfolding is_draw_def by (metis set_sort set_upt)

lemma sample_mset:
  assumes "is_draw perm (length xs)"
  shows "mset (sample perm xs) = mset xs"
proof -
  have "mset (sample perm xs) = image_mset (\<lambda>i. xs ! i) (mset perm)"
    by (simp add: sample_def)
  also have "\<dots> = image_mset (\<lambda>i. xs ! i) (mset [0..<length xs])"
    using is_draw_mset [OF assms] by simp
  also have "\<dots> = mset (map (\<lambda>i. xs ! i) [0..<length xs])"
    by simp
  also have "\<dots> = mset xs"
    by (simp add: map_nth)
  finally show ?thesis .
qed

lemma sample_length: "length (sample perm xs) = length perm"
  by (simp add: sample_def)

subsection \<open>Strategy 1: the merges keep the rows\<close>

lemma drop_duplicates_set: "set (drop_duplicates xs) = set xs"
proof (induction xs rule: drop_duplicates.induct)
  case 1
  then show ?case by simp
next
  case (2 x xs)
  then show ?case by auto
qed

lemma drop_duplicates_distinct: "distinct (drop_duplicates xs)"
proof (induction xs rule: drop_duplicates.induct)
  case 1
  then show ?case by simp
next
  case (2 x xs)
  then show ?case by (simp add: drop_duplicates_set)
qed

lemma stack_keys_distinct:
  assumes "one_profile_per_ORF df"
  shows "distinct (map fst (stack_ORF_prof_df df))"
proof -
  define pairs where "pairs = map (\<lambda>r. (ORF_Q r, PROF_Q r)) df @ map (\<lambda>r. (ORF_A r, PROF_A r)) df"
  have one: "\<forall>x \<in> set pairs. \<forall>y \<in> set pairs. fst x = fst y \<longrightarrow> snd x = snd y"
    using assms unfolding one_profile_per_ORF_def Let_def list_all_iff pairs_def [symmetric] .
  have "inj_on fst (set pairs)"
  proof (rule inj_onI)
    fix x y
    assume xy: "x \<in> set pairs" "y \<in> set pairs" "fst x = fst y"
    then have "snd x = snd y" using one by blast
    then show "x = y" using xy(3) by (rule prod_eqI [rotated])
  qed
  then have "inj_on fst (set (drop_duplicates pairs))"
    by (simp only: drop_duplicates_set)
  then have "distinct (map fst (drop_duplicates pairs))"
    by (simp only: distinct_map drop_duplicates_distinct simp_thms)
  then show ?thesis
    unfolding stack_ORF_prof_df_def pairs_def .
qed

lemma ORF_prof_perm_keys:
  assumes "is_draw perm (length (stack_ORF_prof_df df))"
  shows "map fst (ORF_prof_perm_df perm df) = map fst (stack_ORF_prof_df df)"
proof -
  have "length (sample perm (map snd (stack_ORF_prof_df df))) = length (map fst (stack_ORF_prof_df df))"
    using is_draw_length [OF assms] by (simp add: sample_length)
  then show ?thesis
    unfolding ORF_prof_perm_df_def Let_def by (metis map_fst_zip)
qed

lemma filter_key_le_one:
  "distinct (map fst right) \<Longrightarrow> length (filter (\<lambda>m. fst m = k) right) \<le> 1"
proof (induction right)
  case Nil
  then show ?case by simp
next
  case (Cons m right)
  have d: "distinct (map fst right)" and m: "fst m \<notin> fst ` set right"
    using Cons.prems by simp_all
  show ?case
  proof (cases "fst m = k")
    case True
    have "filter (\<lambda>m. fst m = k) right = []"
      unfolding filter_empty_conv using m True by blast
    then show ?thesis using True by simp
  next
    case False
    then show ?thesis using Cons.IH [OF d] by simp
  qed
qed

lemma merge_left_rows:
  assumes "distinct (map fst right)"
  shows "map fst (merge_left key right ls) = ls"
proof (induction ls)
  case Nil
  then show ?case by simp
next
  case (Cons l ls)
  let ?ms = "filter (\<lambda>m. fst m = key l) right"
  have "length ?ms \<le> 1" using assms by (rule filter_key_le_one)
  then have "?ms = [] \<or> (\<exists>m. ?ms = [m])"
    by (cases ?ms) (auto simp: length_Suc_conv)
  then have "map fst (if ?ms = [] then [(l, None)] else map (\<lambda>m. (l, Some m)) ?ms) = [l]"
    by auto
  then show ?case using Cons.IH by (simp add: Let_def)
qed

lemma qa_merged_df_pairs:
  assumes "one_profile_per_ORF df" and "is_draw perm (length (stack_ORF_prof_df df))"
  shows "map (\<lambda>r. (d_ORF_Q r, d_ORF_A r)) (qa_merged_df perm df) = map (\<lambda>r. (ORF_Q r, ORF_A r)) df"
proof -
  let ?right = "ORF_prof_perm_df perm df"
  let ?q = "merge_left d_ORF_Q ?right (drop_prof_temp_df df)"
  let ?qa = "merge_left (\<lambda>(l, q). d_ORF_A l) ?right ?q"
  have d: "distinct (map fst ?right)"
    using stack_keys_distinct [OF assms(1)] ORF_prof_perm_keys [OF assms(2)] by simp
  have q: "map fst ?q = drop_prof_temp_df df" using d by (rule merge_left_rows)
  have qa: "map fst ?qa = ?q" using d by (rule merge_left_rows)
  have "map (\<lambda>r. (d_ORF_Q r, d_ORF_A r)) (qa_merged_df perm df)
          = map ((\<lambda>l. (d_ORF_Q l, d_ORF_A l)) \<circ> fst \<circ> fst) ?qa"
    by (simp add: qa_merged_df_def Let_def case_prod_unfold comp_def)
  also have "\<dots> = map (\<lambda>l. (d_ORF_Q l, d_ORF_A l)) (map fst (map fst ?qa))"
    by simp
  also have "\<dots> = map (\<lambda>l. (d_ORF_Q l, d_ORF_A l)) (drop_prof_temp_df df)"
    by (simp only: qa q)
  also have "\<dots> = map (\<lambda>r. (ORF_Q r, ORF_A r)) df"
    by (simp add: drop_prof_temp_df_def comp_def)
  finally show ?thesis .
qed

lemma df_based_profiles_scorer_pairs:
  assumes "df_based_profiles_scorer score_pair df = Inr scored"
  shows "map (\<lambda>r. (d_ORF_Q r, d_ORF_A r)) scored = map (\<lambda>r. (d_ORF_Q r, d_ORF_A r)) df"
proof -
  have "list_all2 (\<lambda>r s. (case score_pair (m_PROF_Q r) (m_PROF_A r) of
                    Inl e \<Rightarrow> Inl e
                  | Inr v \<Rightarrow> Inr (merged_row.extend r (scored_row.fields v))) = Inr s) df scored"
    using assms unfolding df_based_profiles_scorer_def by (rule map_err_Inr)
  then have "list_all2 (\<lambda>r s. (d_ORF_Q s, d_ORF_A s) = (d_ORF_Q r, d_ORF_A r)) df scored"
    by (rule list_all2_mono) (auto split: sum.splits simp: merged_row.defs scored_row.defs)
  then show ?thesis
    by (induction df scored rule: list_all2_induct) auto
qed

lemma KO_profs_perm_f_pairs:
  assumes "one_profile_per_ORF df" and "is_draw perm (length (stack_ORF_prof_df df))"
    and "KO_profs_perm_f score_pair t df perm i = Inr res"
  shows "\<exists>reshuffled. dataframe res = Some reshuffled \<and>
           mset (map (\<lambda>r. (d_ORF_Q r, d_ORF_A r)) reshuffled) = mset (map (\<lambda>r. (ORF_Q r, ORF_A r)) df)"
proof -
  obtain scored where s: "df_based_profiles_scorer score_pair (qa_merged_df perm df) = Inr scored"
    and r: "dataframe res = Some scored"
    using assms(3) unfolding KO_profs_perm_f_def by (auto split: sum.splits)
  have "map (\<lambda>r. (d_ORF_Q r, d_ORF_A r)) scored = map (\<lambda>r. (ORF_Q r, ORF_A r)) df"
    using df_based_profiles_scorer_pairs [OF s] qa_merged_df_pairs [OF assms(1,2)] by simp
  then have "mset (map (\<lambda>r. (d_ORF_Q r, d_ORF_A r)) scored) = mset (map (\<lambda>r. (ORF_Q r, ORF_A r)) df)"
    by (rule arg_cong)
  then show ?thesis using r by blast
qed

lemma KO_profs_perm_f_returns:
  assumes "\<forall>p q. \<exists>v. score_pair p q = Inr v"
  shows "\<exists>res. KO_profs_perm_f score_pair t df perm i = Inr res"
proof -
  define f where "f = (\<lambda>r. case score_pair (m_PROF_Q r) (m_PROF_A r) of
                    Inl e \<Rightarrow> Inl e
                  | Inr s \<Rightarrow> Inr (merged_row.extend r (scored_row.fields s)))"
  have "\<forall>r \<in> set (qa_merged_df perm df). \<exists>y. f r = Inr y"
  proof
    fix r :: merged_row
    obtain v where "score_pair (m_PROF_Q r) (m_PROF_A r) = Inr v" using assms by blast
    then show "\<exists>y. f r = Inr y" unfolding f_def by (simp only: sum.case) blast
  qed
  then have "\<exists>ys. map_err f (qa_merged_df perm df) = Inr ys"
    by (rule map_err_total)
  then obtain ys where "df_based_profiles_scorer score_pair (qa_merged_df perm df) = Inr ys"
    unfolding df_based_profiles_scorer_def f_def by blast
  then show ?thesis unfolding KO_profs_perm_f_def by (simp only: sum.case) blast
qed

lemma toy_stack: "stack_ORF_prof_df toy_df = [(''a'', ''+-''), (''b'', ''--''), (''c'', ''++'')]"
  by (simp add: stack_ORF_prof_df_def toy_df_def)

lemma toy_right: "ORF_prof_perm_df [2, 0, 1] toy_df = [(''a'', ''++''), (''b'', ''+-''), (''c'', ''--'')]"
  by (simp add: ORF_prof_perm_df_def toy_stack sample_def)

lemma toy_merged:
  "map (\<lambda>r. (d_ORF_Q r, m_PROF_Q r, d_ORF_A r, m_PROF_A r)) (qa_merged_df [2, 0, 1] toy_df)
     = [(''a'', Some ''++'', ''b'', Some ''+-''), (''a'', Some ''++'', ''c'', Some ''--'')]"
  unfolding qa_merged_df_def toy_right
  by (simp add: drop_prof_temp_df_def toy_df_def)

lemma permute_profiles_f_raises:
  assumes "\<forall>p q. \<exists>v. score_pair p q = Inr v"
  shows "permute_profiles_f score_pair t store df perm i = Inl (UnboundLocalError ''qa_merged_score_df'')"
proof -
  obtain res where "KO_profs_perm_f score_pair t df perm i = Inr res"
    using KO_profs_perm_f_returns [OF assms] by blast
  then obtain ys where "df_based_profiles_scorer score_pair (qa_merged_df perm df) = Inr ys"
    unfolding KO_profs_perm_f_def by (auto split: sum.splits)
  then show ?thesis
    unfolding permute_profiles_f_def by (simp add: Let_def)
qed

subsection \<open>The means never divide by zero\<close>




subsection \<open>The score on arguments up to \<open>2^53\<close>\<close>

lemma score_truncates:
  "score hit_num prot_num p = score (of_int (py_int hit_num)) (of_int (py_int prot_num)) p"
  by (simp add: score_def py_int_of_int)

lemma score_bounded:
  assumes "0 \<le> hit" and "hit \<le> 2 ^ 53" and "0 \<le> prot" and "prot \<le> 2 ^ 53"
    and "0 < p" and "0 < fl64 (1 - p)"
  shows "\<exists>c. log_binomial_loop (of_int prot) [1..(if prot < 2 * hit then prot - hit else hit)] 0 = Inr c \<and>
           score (of_int hit) (of_int prot) p
             = Inr (c + real_of_int hit * ln (real_of_rat p)
                      + real_of_int (prot - hit) * ln (real_of_rat (fl64 (1 - p))))"
proof -
  obtain c where c: "log_binomial_coeff prot hit = Inr c"
    using log_binomial_coeff_returns [OF assms(3,4,1,2)] by blast
  then have loop: "log_binomial_loop (of_int prot) [1..(if prot < 2 * hit then prot - hit else hit)] 0 = Inr c"
    using log_binomial_coeff_bounded [OF assms(3,4,1,2)] by simp
  have h: "py_float hit = Inr (of_int hit)"
    using assms by (intro py_float_exact) simp
  have d: "py_float (prot - hit) = Inr (of_int (prot - hit))"
    using assms by (intro py_float_exact) auto
  have "score (of_int hit) (of_int prot) p
          = Inr (c + real_of_rat (of_int hit) * ln (real_of_rat p)
                   + real_of_rat (of_int (prot - hit)) * ln (real_of_rat (fl64 (1 - p))))"
    using c h d assms(5,6) by (simp add: score_def py_int_of_int math_log_def del: of_int_diff)
  then show ?thesis using loop by (simp del: of_int_diff)
qed

lemma score_raises:
  assumes "0 \<le> hit" and "hit \<le> 2 ^ 53" and "0 \<le> prot" and "prot \<le> 2 ^ 53" and "p \<le> 0 \<or> 1 \<le> p"
  shows "score (of_int hit) (of_int prot) p = Inl (ValueError ''math domain error'')"
proof -
  obtain c where c: "log_binomial_coeff prot hit = Inr c"
    using log_binomial_coeff_returns [OF assms(3,4,1,2)] by blast
  have h: "py_float hit = Inr (of_int hit)"
    using assms by (intro py_float_exact) simp
  show ?thesis
  proof (cases "p \<le> 0")
    case True
    then show ?thesis using c by (simp add: score_def py_int_of_int math_log_def)
  next
    case False
    then have "1 \<le> p" using assms(5) by simp
    then have "fl64 (1 - p) \<le> 0" by (intro fl64_nonpos) simp
    then show ?thesis
      using c h False by (simp add: score_def py_int_of_int math_log_def)
  qed
qed


subsection \<open>Rounding between floats\<close>

lemma fl64_nonneg:
  assumes "0 \<le> x"
  shows "0 \<le> fl64 x"
proof (cases "x = 0")
  case True
  then show ?thesis by (simp add: fl64_def)
next
  case False
  define e where "e = max (ilog2 \<bar>x\<bar> - 52) (- 1074)"
  have "0 \<le> \<bar>x\<bar> / pow2 e" using pow2_pos [of e] by simp
  then have "0 \<le> round_half_even (\<bar>x\<bar> / pow2 e)" by (rule round_half_even_nonneg)
  then have "0 \<le> (of_int (round_half_even (\<bar>x\<bar> / pow2 e)) :: rat) * pow2 e"
    using pow2_pos [of e] by simp
  moreover have "sgn x = 1" using False assms by simp
  ultimately show ?thesis
    using False by (simp add: fl64_def Let_def e_def)
qed

text \<open>Rounding does not step over a float: a number below \<open>K 2^j\<close> is rounded to at most
  \<open>K 2^j\<close> when its own unit in the last place is at most \<open>2^j\<close>.\<close>

lemma fl64_le_dyadic:
  assumes "0 < x" and "x \<le> of_int K * pow2 j" and "ilog2 x - 52 \<le> j" and "- 1074 \<le> j"
  shows "fl64 x \<le> of_int K * pow2 j"
proof -
  define e where "e = max (ilog2 \<bar>x\<bar> - 52) (- 1074)"
  have e: "e \<le> j" using assms(1,3,4) by (simp add: e_def)
  have pj: "pow2 j = of_int (2 ^ nat (j - e)) * pow2 e"
  proof -
    have "pow2 j = pow2 ((j - e) + e)" by simp
    also have "\<dots> = pow2 (j - e) * pow2 e" by (simp only: pow2_add)
    also have "pow2 (j - e) = of_int (2 ^ nat (j - e))" using e by (simp add: pow2_def)
    finally show ?thesis .
  qed
  have "\<bar>x\<bar> / pow2 e \<le> of_int K * pow2 j / pow2 e"
    using assms(1,2) pow2_pos [of e] by (simp add: divide_right_mono)
  also have "\<dots> = of_int (K * 2 ^ nat (j - e))"
    using pow2_pos [of e] by (simp add: pj)
  finally have "round_half_even (\<bar>x\<bar> / pow2 e) \<le> K * 2 ^ nat (j - e)"
    by (rule round_half_even_le)
  then have "(of_int (round_half_even (\<bar>x\<bar> / pow2 e)) :: rat) \<le> of_int (K * 2 ^ nat (j - e))"
    by (simp only: of_int_le_iff)
  then have "of_int (round_half_even (\<bar>x\<bar> / pow2 e)) * pow2 e \<le> of_int (K * 2 ^ nat (j - e)) * pow2 e"
    using pow2_pos [of e] by (simp add: mult_right_mono)
  also have "\<dots> = of_int K * pow2 j"
    by (simp add: pj)
  finally show ?thesis
    using assms(1) by (simp add: fl64_def Let_def e_def)
qed

lemma fl64_le_int:
  assumes "0 < x" and "x \<le> of_int K" and "K \<le> 2 ^ 53"
  shows "fl64 x \<le> of_int K"
proof (cases "x = of_int K")
  case True
  have "\<bar>K\<bar> \<le> 2 ^ 53" using assms(1,3) True by simp
  then show ?thesis using fl64_of_int [of K] True by simp
next
  case False
  then have "x < of_int K" using assms(2) by simp
  also have "(of_int K :: rat) \<le> of_int (2 ^ 53)" using assms(3) by (simp only: of_int_le_iff)
  also have "(of_int (2 ^ 53) :: rat) = pow2 53" by (simp add: pow2_def)
  finally have "ilog2 x < 53" using ilog2_less [OF assms(1)] by simp
  then have "fl64 x \<le> of_int K * pow2 0"
    using assms by (intro fl64_le_dyadic) (simp_all add: pow2_def)
  then show ?thesis by (simp add: pow2_def)
qed

text \<open>The quotient of two counts, the lesser over the greater, is a float strictly between 0 and 1.\<close>

lemma fraction_float:
  assumes "0 < c" and "c < n" and "n \<le> 2 ^ 53"
  shows "0 < fl64 (of_nat c / of_nat n)" and "fl64 (of_nat c / of_nat n) < 1"
proof -
  let ?x = "of_nat c / of_nat n :: rat"
  have n: "0 < n" using assms by simp
  have nb: "(of_nat n :: rat) \<le> 2 ^ 53"
  proof -
    have "(of_nat n :: rat) \<le> of_nat (2 ^ 53)" using assms(3) by (simp only: of_nat_le_iff)
    then show ?thesis by simp
  qed
  have low: "1 / 2 ^ 53 \<le> ?x"
  proof -
    have "(1::rat) \<le> of_nat c" using assms(1) by simp
    then show ?thesis using nb n by (intro frac_le) simp_all
  qed
  have "pow2 (- 1074) \<le> pow2 (- 53)" by (rule pow2_mono) simp
  also have "pow2 (- 53) = 1 / 2 ^ 53" by (simp add: pow2_def)
  finally have "pow2 (- 1074) \<le> 1 / 2 ^ 53" .
  then have "pow2 (- 1074) \<le> ?x" using low by (rule order_trans)
  then show "0 < fl64 ?x" by (rule fl64_pos)
  have x0: "0 < ?x" using assms n by simp
  have x1: "?x < pow2 0" using assms n by (simp add: pow2_def)
  have il: "ilog2 ?x < 0" using ilog2_less [OF x0 x1] .
  have "of_nat c + 1 \<le> (of_nat n :: rat)"
  proof -
    have "(of_nat (Suc c) :: rat) \<le> of_nat n" using assms(2) by (simp only: of_nat_le_iff Suc_le_eq)
    then show ?thesis by (simp add: add.commute)
  qed
  then have "?x \<le> 1 - 1 / of_nat n"
    using n by (simp add: field_simps)
  also have "\<dots> \<le> 1 - 1 / 2 ^ 53"
  proof -
    have "1 / 2 ^ 53 \<le> 1 / (of_nat n :: rat)" using nb n by (intro frac_le) simp_all
    then show ?thesis by simp
  qed
  also have "\<dots> = of_int (2 ^ 53 - 1) * pow2 (- 53)"
    by (simp add: pow2_def field_simps)
  finally have "fl64 ?x \<le> of_int (2 ^ 53 - 1) * pow2 (- 53)"
    using x0 il by (intro fl64_le_dyadic) simp_all
  also have "\<dots> < 1" by (simp add: pow2_def)
  finally show "fl64 ?x < 1" .
qed

subsection \<open>The rows \<open>calculate_enrichment\<close> returns\<close>

lemma calculate_enrichment_rows:
  fixes col :: "'r \<Rightarrow> 'c::linorder"
  assumes "calculate_enrichment col selected_df total_df = Inr rows"
  shows "\<exists>series. map_err (background_p (length total_df)) (map snd (groupby_size col total_df)) = Inr series \<and>
           list_all2 (\<lambda>(b, p) r.
               category r = fst b \<and> COUNT r = snd b \<and> P r = p \<and>
               COUNT_EXP r = count_exp (length selected_df) p \<and>
               score_cell (snd b) (length selected_df) p = Inr (SCORE r) \<and>
               score_exp_cell (COUNT_EXP r) (length selected_df) p = Inr (SCORE_EXP r) \<and>
               FOLD_CHNG r = fold_chng (snd b) (COUNT_EXP r))
             (zip (groupby_size col selected_df)
                  (align series (length (groupby_size col selected_df)))) rows"
proof -
  define bins where "bins = groupby_size col selected_df"
  define n where "n = length selected_df"
  obtain series where series:
      "map_err (background_p (length total_df)) (map snd (groupby_size col total_df)) = Inr series"
    using assms unfolding calculate_enrichment_def by (auto simp: Let_def split: if_splits sum.splits)
  define with_p where "with_p = zip bins (align series (length bins))"
  define f1 where "f1 = (\<lambda>(c :: 'c, m, p, ce :: rat option).
                          case score_cell m n p of
                            Inl e \<Rightarrow> Inl e | Inr s \<Rightarrow> Inr (c, m, p, ce, s))"
  define f2 where "f2 = (\<lambda>(c :: 'c, m, p, ce, s).
                          case score_exp_cell ce n p of
                            Inl e \<Rightarrow> Inl e
                          | Inr se \<Rightarrow>
                              Inr \<lparr>category = c, COUNT = m, P = p, COUNT_EXP = ce, SCORE = s,
                                   SCORE_EXP = se, FOLD_CHNG = fold_chng m ce\<rparr>)"
  define g where "g = (\<lambda>((c :: 'c, m :: nat), p). (c, m, p, count_exp n p))"
  obtain with_score where ws: "map_err f1 (map g with_p) = Inr with_score"
    and rows: "map_err f2 with_score = Inr rows"
    using assms series unfolding calculate_enrichment_def
    by (auto simp: Let_def bins_def n_def with_p_def f1_def f2_def g_def split: if_splits sum.splits)
  have a: "list_all2 (\<lambda>x y. f1 (g x) = Inr y) with_p with_score"
    using map_err_Inr [OF ws] by (simp add: list_all2_map1)
  have b: "list_all2 (\<lambda>y r. f2 y = Inr r) with_score rows"
    using map_err_Inr [OF rows] .
  have "list_all2 (\<lambda>(b, p) r.
               category r = fst b \<and> COUNT r = snd b \<and> P r = p \<and>
               COUNT_EXP r = count_exp n p \<and>
               score_cell (snd b) n p = Inr (SCORE r) \<and>
               score_exp_cell (COUNT_EXP r) n p = Inr (SCORE_EXP r) \<and>
               FOLD_CHNG r = fold_chng (snd b) (COUNT_EXP r)) with_p rows"
    using a b
  proof (rule list_all2_trans [rotated])
    fix x y r
    assume "f1 (g x) = Inr y" and "f2 y = Inr r"
    then show "(case x of (b, p) \<Rightarrow> \<lambda>r.
               category r = fst b \<and> COUNT r = snd b \<and> P r = p \<and>
               COUNT_EXP r = count_exp n p \<and>
               score_cell (snd b) n p = Inr (SCORE r) \<and>
               score_exp_cell (COUNT_EXP r) n p = Inr (SCORE_EXP r) \<and>
               FOLD_CHNG r = fold_chng (snd b) (COUNT_EXP r)) r"
      by (auto simp: f1_def f2_def g_def split: prod.splits sum.splits)
  qed
  then show ?thesis
    using series unfolding with_p_def bins_def n_def by blast
qed

lemma list_all2_in_set2:
  "list_all2 R xs ys \<Longrightarrow> y \<in> set ys \<Longrightarrow> \<exists>x \<in> set xs. R x y"
  by (induction xs ys rule: list_all2_induct) auto

lemma groupby_size_positive:
  assumes "b \<in> set (groupby_size col df)"
  shows "0 < snd b"
proof -
  obtain c where c: "c \<in> set (map col df)" and b: "b = (c, count_list (map col df) c)"
    using assms by (auto simp: groupby_size_def Let_def)
  have "count_list (map col df) c \<noteq> 0"
    using c by (simp only: count_list_0_iff not_not)
  then show ?thesis using b by simp
qed



subsection \<open>When \<open>calculate_enrichment\<close> returns\<close>

lemma count_list_le_length: "count_list xs c \<le> length xs"
  by (induction xs) auto

lemma count_list_less_length:
  "c' \<in> set xs \<Longrightarrow> c' \<noteq> c \<Longrightarrow> count_list xs c < length xs"
proof (induction xs)
  case Nil
  then show ?case by simp
next
  case (Cons x xs)
  show ?case
  proof (cases "x = c'")
    case True
    then show ?thesis
      using Cons.prems count_list_le_length [of xs c] by simp
  next
    case False
    then have "count_list xs c < length xs" using Cons by simp
    then show ?thesis by simp
  qed
qed

lemma groupby_size_count:
  assumes "b \<in> set (groupby_size col df)"
  shows "snd b \<le> length df"
  using assms count_list_le_length [of "map col df"]
  by (auto simp: groupby_size_def Let_def)

lemma groupby_size_count_less:
  fixes col :: "'r \<Rightarrow> 'c::linorder"
  assumes "b \<in> set (groupby_size col df)" and "2 \<le> length (groupby_size col df)"
  shows "snd b < length df"
proof -
  define keys where "keys = sort (remdups (map col df))"
  have d: "distinct keys" and s: "set keys = set (map col df)"
    by (simp_all add: keys_def)
  have l: "2 \<le> length keys"
    using assms(2) by (simp add: groupby_size_def Let_def keys_def)
  obtain c where c: "c \<in> set keys" and b: "b = (c, count_list (map col df) c)"
    using assms(1) by (auto simp: groupby_size_def Let_def keys_def)
  have "\<exists>c' \<in> set keys. c' \<noteq> c"
  proof (rule ccontr)
    assume "\<not> (\<exists>c' \<in> set keys. c' \<noteq> c)"
    then have "set keys \<subseteq> {c}" by blast
    then have "card (set keys) \<le> 1" by (metis card_mono card.empty card_insert_disjoint empty_iff finite.emptyI finite.insertI One_nat_def)
    then show False using l distinct_card [OF d] by simp
  qed
  then obtain c' where "c' \<in> set (map col df)" "c' \<noteq> c" using s by blast
  then show ?thesis using b count_list_less_length [of c' "map col df" c] by simp
qed

lemma background_p_value:
  assumes "n \<le> 2 ^ 53" and "c \<le> n" and "0 < n"
  shows "background_p n c = Inr (fl64 (of_nat c / of_nat n))"
proof -
  have "\<bar>int n\<bar> \<le> 2 ^ 53" using assms(1) by (simp add: le_nat_iff [symmetric] nat_le_iff)
  moreover have "\<bar>int c\<bar> \<le> 2 ^ 53" using assms(1,2) by (simp add: nat_le_iff)
  ultimately show ?thesis
    using assms(3) by (simp add: background_p_def py_float_exact)
qed

lemma score_returns:
  assumes "h \<le> 2 ^ 53" and "n \<le> 2 ^ 53" and "0 < p" and "p < 1" and "fl64 p = p"
  shows "\<exists>v. score (of_nat h) (of_nat n) p = Inr v"
proof -
  have a: "0 \<le> int h" "int h \<le> 2 ^ 53" "0 \<le> int n" "int n \<le> 2 ^ 53"
    using assms(1,2) by (simp_all add: nat_le_iff)
  have "0 < fl64 (1 - p)" using assms(5,3,4) by (rule one_minus_float_pos)
  then show ?thesis
    using score_bounded [OF a assms(3)] by auto
qed

lemma score_of_float_returns:
  assumes "0 \<le> ce" and "ce \<le> of_nat n" and "n \<le> 2 ^ 53" and "0 < p" and "p < 1" and "fl64 p = p"
  shows "\<exists>v. score ce (of_nat n) p = Inr v"
proof -
  have "0 \<le> py_int ce" using assms(1) by (simp add: py_int_def)
  moreover have "py_int ce \<le> int n"
  proof -
    have "\<lfloor>ce\<rfloor> \<le> \<lfloor>of_nat n :: rat\<rfloor>" using assms(2) by (rule floor_mono)
    then show ?thesis using assms(1) by (simp add: py_int_def)
  qed
  ultimately obtain h where h: "py_int ce = int h" and hn: "h \<le> n"
    by (metis nat_le_iff nat_0_le)
  have "py_int (of_nat n) = int n"
    using py_int_of_int [of "int n"] by simp
  then have "score ce (of_nat n) p = score (of_nat h) (of_nat n) p"
    using score_truncates [of ce "of_nat n" p] h by simp
  moreover have "h \<le> 2 ^ 53" using hn assms(3) by simp
  ultimately show ?thesis
    using score_returns [OF _ assms(3,4,5,6), of h] by simp
qed

lemma map_err_map:
  "(\<forall>x \<in> set xs. f x = Inr (g x)) \<Longrightarrow> map_err f xs = Inr (map g xs)"
  by (induction xs) auto

lemma align_take:
  assumes "m \<le> length series"
  shows "align series m = map Some (take m series)"
  unfolding align_def using assms by (intro nth_equalityI) simp_all

lemma background_series:
  fixes col :: "'r \<Rightarrow> 'c::linorder"
  assumes "0 < length total_df" and "length total_df \<le> 2 ^ 53"
  shows "map_err (background_p (length total_df)) (map snd (groupby_size col total_df))
           = Inr (map (\<lambda>c. fl64 (of_nat c / of_nat (length total_df))) (map snd (groupby_size col total_df)))"
proof (rule map_err_map, rule ballI)
  fix c
  assume "c \<in> set (map snd (groupby_size col total_df))"
  then have "c \<le> length total_df" using groupby_size_count by fastforce
  then show "background_p (length total_df) c = Inr (fl64 (of_nat c / of_nat (length total_df)))"
    using assms by (intro background_p_value)
qed

lemma calculate_enrichment_stages:
  fixes col :: "'r \<Rightarrow> 'c::linorder"
  assumes "selected_df \<noteq> []" and "length selected_df \<le> length total_df"
    and "map_err (background_p (length total_df)) (map snd (groupby_size col total_df)) = Inr series"
  shows "calculate_enrichment col selected_df total_df =
     (case map_err (\<lambda>(c, n, p, ce).
                          case score_cell n (length selected_df) p of
                            Inl e \<Rightarrow> Inl e | Inr s \<Rightarrow> Inr (c, n, p, ce, s))
             (map (\<lambda>((c, n), p). (c, n, p, count_exp (length selected_df) p))
                (zip (groupby_size col selected_df) (align series (length (groupby_size col selected_df))))) of
        Inl e \<Rightarrow> Inl e
      | Inr with_score \<Rightarrow>
          map_err (\<lambda>(c, n, p, ce, s).
                          case score_exp_cell ce (length selected_df) p of
                            Inl e \<Rightarrow> Inl e
                          | Inr se \<Rightarrow>
                              Inr \<lparr>category = c, COUNT = n, P = p, COUNT_EXP = ce, SCORE = s,
                                   SCORE_EXP = se, FOLD_CHNG = fold_chng n ce\<rparr>) with_score)"
proof -
  have "total_df \<noteq> []" using assms(1,2) by auto
  then show ?thesis
    using assms by (simp add: calculate_enrichment_def Let_def)
qed

lemma calculate_enrichment_returns:
  fixes col :: "'r \<Rightarrow> 'c::linorder"
  assumes "selected_df \<noteq> []" and "length selected_df \<le> length total_df"
    and "length total_df \<le> 2 ^ 53"
    and "length (groupby_size col selected_df) \<le> length (groupby_size col total_df)"
    and "2 \<le> length (groupby_size col total_df)"
  shows "\<exists>rows. calculate_enrichment col selected_df total_df = Inr rows"
proof -
  define ls where "ls = length selected_df"
  define lt where "lt = length total_df"
  define bins where "bins = groupby_size col selected_df"
  define series where "series = map (\<lambda>c. fl64 (of_nat c / of_nat lt)) (map snd (groupby_size col total_df))"
  have ls: "0 < ls" "ls \<le> 2 ^ 53" and lt: "0 < lt" "lt \<le> 2 ^ 53"
    using assms(1,2,3) by (auto simp: ls_def lt_def)
  have ser: "map_err (background_p lt) (map snd (groupby_size col total_df)) = Inr series"
    unfolding series_def lt_def using lt by (intro background_series) (simp_all add: lt_def)
  have pr: "0 < p \<and> p < 1 \<and> fl64 p = p" if "p \<in> set series" for p
  proof -
    have "p \<in> (\<lambda>b. fl64 (of_nat (snd b) / of_nat lt)) ` set (groupby_size col total_df)"
      using that by (simp add: series_def image_image)
    then obtain b where b: "b \<in> set (groupby_size col total_df)" and p: "p = fl64 (of_nat (snd b) / of_nat lt)"
      by blast
    have "0 < snd b" using b by (rule groupby_size_positive)
    moreover have "snd b < lt" using b assms(5) unfolding lt_def by (rule groupby_size_count_less)
    ultimately show ?thesis
      using fraction_float [of "snd b" lt] lt fl64_idem p by simp
  qed
  define f1 where "f1 = (\<lambda>(c :: 'c, n, p, ce :: rat option).
                          case score_cell n ls p of
                            Inl e \<Rightarrow> Inl e | Inr s \<Rightarrow> Inr (c, n, p, ce, s))"
  define f2 where "f2 = (\<lambda>(c :: 'c, n, p, ce, s).
                          case score_exp_cell ce ls p of
                            Inl e \<Rightarrow> Inl e
                          | Inr se \<Rightarrow>
                              Inr \<lparr>category = c, COUNT = n, P = p, COUNT_EXP = ce, SCORE = s,
                                   SCORE_EXP = se, FOLD_CHNG = fold_chng n ce\<rparr>)"
  define g where "g = (\<lambda>((c :: 'c, n :: nat), p). (c, n, p, count_exp ls p))"
  define with_p where "with_p = zip bins (align series (length bins))"
  have calc: "calculate_enrichment col selected_df total_df =
     (case map_err f1 (map g with_p) of Inl e \<Rightarrow> Inl e | Inr with_score \<Rightarrow> map_err f2 with_score)"
    using calculate_enrichment_stages [OF assms(1,2) ser [unfolded lt_def]]
    unfolding f1_def f2_def g_def with_p_def bins_def ls_def .
  have lb: "length bins \<le> length series"
    using assms(4) by (simp add: bins_def series_def)
  have al: "align series (length bins) = map Some (take (length bins) series)"
    using lb by (rule align_take)
  have elem: "\<exists>c n p. x = (c, n, Some p, Some (fl64 (fl64 (of_nat ls) * p))) \<and>
                 n \<le> ls \<and> 0 < p \<and> p < 1 \<and> fl64 p = p"
    if "x \<in> set (map g with_p)" for x
  proof -
    have "x \<in> g ` set with_p" using that by simp
    then obtain z where z: "z \<in> set with_p" and xz: "x = g z" by blast
    obtain b q where zb: "z = (b, q)" by (cases z)
    have bq: "(b, q) \<in> set with_p" and x: "x = g (b, q)"
      using z xz zb by simp_all
    have b: "b \<in> set bins" and q: "q \<in> set (map Some (take (length bins) series))"
      using bq al by (auto simp: with_p_def dest: set_zip_leftD set_zip_rightD)
    have "q \<in> Some ` set (take (length bins) series)" using q by simp
    then obtain p where p: "q = Some p" "p \<in> set series"
      by (blast dest: in_set_takeD)
    have "snd b \<le> ls" using b unfolding bins_def ls_def by (rule groupby_size_count)
    then show ?thesis
      using pr [OF p(2)] p(1) x by (cases b) (simp add: g_def count_exp_def)
  qed
  have s1: "\<exists>y. f1 x = Inr y" if xs: "x \<in> set (map g with_p)" for x
  proof -
    obtain c n p where x: "x = (c, n, Some p, Some (fl64 (fl64 (of_nat ls) * p)))"
      and n: "n \<le> ls" and p: "0 < p" "p < 1" "fl64 p = p"
      using elem [OF xs] by blast
    have "n \<le> 2 ^ 53" using n ls by simp
    then obtain v where "score (of_nat n) (of_nat ls) p = Inr v"
      using score_returns [OF _ ls(2) p] by blast
    then show ?thesis by (simp add: x f1_def score_cell_def)
  qed
  then obtain with_score where ws: "map_err f1 (map g with_p) = Inr with_score"
    using map_err_total [of "map g with_p" f1] by blast
  have s2: "\<exists>r. f2 y = Inr r" if ys: "y \<in> set with_score" for y
  proof -
    obtain x where xin: "x \<in> set (map g with_p)" and fx: "f1 x = Inr y"
      using list_all2_in_set2 [OF map_err_Inr [OF ws] ys] by blast
    obtain c n p where x: "x = (c, n, Some p, Some (fl64 (fl64 (of_nat ls) * p)))"
      and n: "n \<le> ls" and p: "0 < p" "p < 1" "fl64 p = p"
      using elem [OF xin] by blast
    obtain s where y: "y = (c, n, Some p, Some (fl64 (fl64 (of_nat ls) * p)), s)"
      using fx unfolding x f1_def by (auto split: sum.splits)
    have fls: "fl64 (of_nat ls) = (of_nat ls :: rat)"
      using fl64_of_int [of "int ls"] ls by (simp add: nat_le_iff)
    have pos: "0 < of_nat ls * p" using ls p by simp
    have le: "of_nat ls * p \<le> of_int (int ls)" using ls p by (simp add: mult_le_cancel_left1)
    have "fl64 (of_nat ls * p) \<le> of_int (int ls)"
      using pos le ls by (intro fl64_le_int) (simp_all add: nat_le_iff)
    moreover have "0 \<le> fl64 (of_nat ls * p)" using pos by (intro fl64_nonneg) simp
    ultimately obtain v where "score (fl64 (of_nat ls * p)) (of_nat ls) p = Inr v"
      using score_of_float_returns [OF _ _ ls(2) p, of "fl64 (of_nat ls * p)"] by auto
    then show ?thesis by (simp add: y f2_def score_exp_cell_def fls)
  qed
  then obtain rows where "map_err f2 with_score = Inr rows"
    using map_err_total [of with_score f2] by blast
  then show ?thesis using calc ws by simp
qed

lemma groupby_size_Nil: "groupby_size col [] = []"
  by (simp add: groupby_size_def)

lemma count_list_all_equal:
  "set xs \<subseteq> {c} \<Longrightarrow> count_list xs c = length xs"
  by (induction xs) auto

lemma enrichment_single_category:
  fixes col :: "'r \<Rightarrow> 'c::linorder"
  assumes "length (groupby_size col T) = 1" and "length T \<le> 2 ^ 53"
  shows "calculate_enrichment col T T = Inl (ValueError ''math domain error'')"
proof -
  define n where "n = length T"
  have T: "T \<noteq> []" using assms(1) by (auto simp: groupby_size_Nil)
  then have n: "0 < n" "n \<le> 2 ^ 53" using assms(2) by (simp_all add: n_def)
  obtain c where keys: "sort (remdups (map col T)) = [c]"
    using assms(1) by (auto simp: groupby_size_def Let_def length_Suc_conv)
  have "set (map col T) = set (sort (remdups (map col T)))" by simp
  then have "set (map col T) \<subseteq> {c}" unfolding keys by simp
  then have "count_list (map col T) c = n"
    using count_list_all_equal [of "map col T" c] by (simp add: n_def)
  then have bins: "groupby_size col T = [(c, n)]"
    by (simp add: groupby_size_def Let_def keys)
  have "fl64 (of_nat n / of_nat n) = 1"
    using n fl64_of_int [of 1] by simp
  then have ser: "map_err (background_p (length T)) (map snd (groupby_size col T)) = Inr [1]"
    using background_p_value [of n n] n by (simp add: bins n_def [symmetric])
  have al: "align [1 :: rat] (Suc 0) = [Some 1]"
    by (simp add: align_def)
  have "score (of_int (int n)) (of_int (int n)) 1 = Inl (ValueError ''math domain error'')"
    using n by (intro score_raises) (simp_all add: nat_le_iff)
  then have "score_cell n n (Some 1) = Inl (ValueError ''math domain error'')"
    by (simp add: score_cell_def)
  then show ?thesis
    unfolding calculate_enrichment_stages [OF T order_refl ser]
    by (simp add: bins al n_def [symmetric])
qed

subsection \<open>The small tables\<close>

lemma toy_bins:
  "groupby_size (\<lambda>x. x) toy_total = [(0, 1), (1, 3)]"
  "groupby_size (\<lambda>x. x) toy_selected = [(1, 1)]"
  "length toy_total = 4" "length toy_selected = 1"
  by (simp_all add: groupby_size_def toy_total_def toy_selected_def)


lemma toy_floats:
  "fl64 (1 / 4) = 1 / 4" "fl64 (3 / 4) = 3 / 4" "fl64 4 = 4" "fl64 1 = 1"
  "fl64 (4 * (1 / 4)) = 1" "fl64 (4 * (3 / 4)) = 3" "fl64 (1 * (1 / 4)) = 1 / 4"
  by code_simp+


lemma more_floats: "fl64 48 = 48" "fl64 49 = 49" "fl64 1 = 1"
  by code_simp+

lemma loop_49_once: "log_binomial_loop 49 [1..1] 0 = Inr (ln 49)"
  by (simp add: upto.simps math_log_def more_floats)

lemma loop_none: "log_binomial_loop n [1..0] 0 = Inr 0"
  by (simp add: upto.simps)

section \<open>The claims\<close>

text \<open>
  C3, as amended. For every threshold \<open>t > 0\<close> and every score column with no negative
  score, each score is selected by exactly one of the three masks (similar, dissimilar,
  mirror), and the three counts add up to the number of rows. (For \<open>t \<le> 0\<close> a score of
  0 is both similar and mirror.)
\<close>

theorem classification_partition:
  assumes "0 < t" and "\<forall>s \<in> set col. 0 \<le> s"
  shows "(\<forall>s \<in> set col. classes_of t s = 1) \<and>
         sim_prof_perm_num t col + unsim_prof_perm_num t col + mir_prof_perm_num col = length col"
proof
  show "\<forall>s \<in> set col. classes_of t s = 1"
    using assms
    by (auto simp: classes_of_def sim_prof_bool_def unsim_prof_bool_def mir_prof_bool_def)
  show "sim_prof_perm_num t col + unsim_prof_perm_num t col + mir_prof_perm_num col = length col"
    using assms(2)
  proof (induction col)
    case Nil
    then show ?case
      by (simp add: sim_prof_perm_num_def unsim_prof_perm_num_def mir_prof_perm_num_def)
  next
    case (Cons s col)
    then show ?case
      using assms(1)
      by (auto simp: sim_prof_perm_num_def unsim_prof_perm_num_def mir_prof_perm_num_def
          sim_prof_bool_def unsim_prof_bool_def mir_prof_bool_def)
  qed
qed

theorem classification_partition_witness:
  "(0::real) < 2 \<and> list_all (\<lambda>s. 0 \<le> s) [0, 1, 2, 3 :: real] \<and>
   list_all (\<lambda>s. classes_of 2 s = 1) [0, 1, 2, 3] \<and>
   sim_prof_perm_num 2 [0, 1, 2, 3] + unsim_prof_perm_num 2 [0, 1, 2, 3] + mir_prof_perm_num [0, 1, 2, 3] = 4"
  using classification_partition [of 2 "[0, 1, 2, 3]"] by simp

text \<open>
  C3 as stated fails at the threshold 0: the score 0 is selected by two masks, and on the
  one-row column \<open>[0]\<close> the three counts add up to 2.
\<close>

theorem classification_threshold_zero_counterexample:
  "classes_of 0 0 = 2 \<and>
   sim_prof_perm_num 0 [0] + unsim_prof_perm_num 0 [0] + mir_prof_perm_num [0] = 2 \<and>
   length [0 :: real] = 1"
  by (simp add: classes_of_def sim_prof_perm_num_def unsim_prof_perm_num_def mir_prof_perm_num_def
      sim_prof_bool_def unsim_prof_bool_def mir_prof_bool_def)

text \<open>
  C7. For every catalogue without an empty entry and every draw, the permuted catalogue of
  a trial of \<open>prof_arr_perm\<close> is built, its profiles are those of the catalogue (position
  by position, so also as a multiset), and its names are the catalogue's names in the
  drawn order: the same names as a multiset, moved to other profiles.
\<close>

theorem prof_arr_perm_catalogue:
  assumes "is_draw perm (length gene_profs)" and "[] \<notin> set gene_profs"
  shows "\<exists>cat. gene_profs_perm_arr_list perm gene_profs = Inr cat \<and>
           map tl cat = map tl gene_profs \<and>
           mset (map tl cat) = mset (map tl gene_profs) \<and>
           map hd cat = sample perm (map hd gene_profs) \<and>
           mset (map hd cat) = mset (map hd gene_profs)"
proof -
  let ?names = "sample perm (map hd gene_profs)"
  let ?cat = "map (\<lambda>(name, prof). name # prof) (zip ?names (map tl gene_profs))"
  have len: "length ?names = length (map tl gene_profs)"
    using is_draw_length [OF assms(1)] by (simp add: sample_length)
  have tl: "map tl ?cat = map tl gene_profs"
  proof -
    have "map tl ?cat = map snd (zip ?names (map tl gene_profs))"
      by (simp add: case_prod_unfold)
    then show ?thesis
      using len by (metis map_snd_zip)
  qed
  have hd: "map hd ?cat = ?names"
  proof -
    have "map hd ?cat = map fst (zip ?names (map tl gene_profs))"
      by (simp add: case_prod_unfold)
    then show ?thesis
      using len by (metis map_fst_zip)
  qed
  have names: "mset ?names = mset (map hd gene_profs)"
    using sample_mset [of perm "map hd gene_profs"] assms(1) by simp
  have built: "gene_profs_perm_arr_list perm gene_profs = Inr ?cat"
    using assms(2) by (simp add: gene_profs_perm_arr_list_def Let_def)
  have "mset (map tl ?cat) = mset (map tl gene_profs)"
    by (simp only: tl)
  moreover have "mset (map hd ?cat) = mset (map hd gene_profs)"
    by (simp only: hd names)
  ultimately show ?thesis
    using built tl hd by blast
qed

theorem prof_arr_perm_catalogue_witness:
  "is_draw [2, 0, 1] (length [[''a'', ''+'', ''-''], [''b'', ''-'', ''-''], [''c'', ''+'', ''+'']]) \<and>
   [] \<notin> set [[''a'', ''+'', ''-''], [''b'', ''-'', ''-''], [''c'', ''+'', ''+'']] \<and>
   gene_profs_perm_arr_list [2, 0, 1] [[''a'', ''+'', ''-''], [''b'', ''-'', ''-''], [''c'', ''+'', ''+'']]
     = Inr [[''c'', ''+'', ''-''], [''a'', ''-'', ''-''], [''b'', ''+'', ''+'']]"
  using prof_arr_perm_catalogue [of "[2, 0, 1]" "[[''a'', ''+'', ''-''], [''b'', ''-'', ''-''], [''c'', ''+'', ''+'']]"]
  by (simp add: is_draw_def gene_profs_perm_arr_list_def sample_def)

text \<open>
  C8, as amended. For all integers \<open>n\<close>, \<open>k\<close> with \<open>0 \<le> k \<le> n \<le> 2^53\<close>,
  \<open>_log_binomial_coeff(n, k)\<close> equals \<open>_log_binomial_coeff(n, n - k)\<close>: both calls run the
  same loop. (Above \<open>2^53\<close> the float conversions of \<open>n\<close> and \<open>k\<close> round.)
\<close>

theorem log_binomial_coeff_symmetry:
  assumes "0 \<le> k" and "k \<le> n" and "n \<le> 2 ^ 53"
  shows "log_binomial_coeff n k = log_binomial_coeff n (n - k)"
proof -
  have a: "log_binomial_coeff n k =
             log_binomial_loop (of_int n) [1..(if n < 2 * k then n - k else k)] 0"
    using assms by (intro log_binomial_coeff_bounded) simp_all
  have b: "log_binomial_coeff n (n - k) =
             log_binomial_loop (of_int n) [1..(if n < 2 * (n - k) then n - (n - k) else n - k)] 0"
    using assms by (intro log_binomial_coeff_bounded) simp_all
  have "(if n < 2 * k then n - k else k) = (if n < 2 * (n - k) then n - (n - k) else n - k)"
    by auto
  then show ?thesis using a b by simp
qed

theorem log_binomial_coeff_symmetry_witness:
  "(0::int) \<le> 2 \<and> (2::int) \<le> 5 \<and> (5::int) \<le> 2 ^ 53 \<and>
   log_binomial_coeff 5 2 = log_binomial_coeff 5 (5 - 2)"
  using log_binomial_coeff_symmetry [of 2 5] by simp

text \<open>
  C8 as stated fails at \<open>n = 2^53 + 2\<close>, \<open>k = 2^53 + 1\<close>: \<open>float(k)\<close> rounds to \<open>2^53\<close>, so
  \<open>int(n - k)\<close> is 2 and the loop runs twice, while for \<open>n - k = 1\<close> it runs once.
\<close>

theorem log_binomial_coeff_symmetry_counterexample:
  "log_binomial_coeff 9007199254740994 9007199254740993
     \<noteq> log_binomial_coeff 9007199254740994 (9007199254740994 - 9007199254740993)"
proof -
  have l: "log_binomial_coeff 9007199254740994 9007199254740993
             = Inr (ln 9007199254740992 + ln 4503599627370496)"
    using big_vals big_bounds
    by (simp add: log_binomial_coeff_def py_float_def int_of_difference_def py_int_def
        math_log_def upto.simps)
  have r: "log_binomial_coeff 9007199254740994 1 = Inr (ln 9007199254740992)"
    using big_vals big_bounds
    by (simp add: log_binomial_coeff_def py_float_def int_of_difference_def py_int_def
        math_log_def upto.simps)
  have "ln (4503599627370496::real) > 0" by simp
  then show ?thesis using l r by simp
qed

text \<open>
  C2, as amended. For integer arguments \<open>0 \<le> hits, trials \<le> 2^53\<close> and a float \<open>p\<close>,
  \<open>_score(hits, trials, p)\<close> raises the math domain error when \<open>p \<le> 0\<close> or \<open>p \<ge> 1\<close> (both
  logarithms are always evaluated, whatever they are multiplied by), and returns a number
  when \<open>0 < p < 1\<close>, also when \<open>hits > trials\<close>.
\<close>

theorem score_domain_error:
  assumes "0 \<le> hit" and "hit \<le> 2 ^ 53" and "0 \<le> prot" and "prot \<le> 2 ^ 53" and "fl64 p = p"
  shows "(p \<le> 0 \<or> 1 \<le> p \<longrightarrow>
            score (of_int hit) (of_int prot) p = Inl (ValueError ''math domain error'')) \<and>
         (0 < p \<and> p < 1 \<longrightarrow> (\<exists>v. score (of_int hit) (of_int prot) p = Inr v))"
proof -
  obtain c where c: "log_binomial_coeff prot hit = Inr c"
    using log_binomial_coeff_returns [OF assms(3,4,1,2)] by blast
  have h: "py_float hit = Inr (of_int hit)"
    using assms by (intro py_float_exact) simp
  have d: "py_float (prot - hit) = Inr (of_int (prot - hit))"
    using assms by (intro py_float_exact) auto
  have low: "p \<le> 0 \<Longrightarrow> score (of_int hit) (of_int prot) p = Inl (ValueError ''math domain error'')"
    using c by (simp add: score_def py_int_of_int math_log_def)
  have high: "1 \<le> p \<Longrightarrow> score (of_int hit) (of_int prot) p = Inl (ValueError ''math domain error'')"
  proof -
    assume p: "1 \<le> p"
    then have "fl64 (1 - p) \<le> 0" by (intro fl64_nonpos) simp
    then show ?thesis
      using c h p by (simp add: score_def py_int_of_int math_log_def)
  qed
  have mid: "0 < p \<Longrightarrow> p < 1 \<Longrightarrow> \<exists>v. score (of_int hit) (of_int prot) p = Inr v"
  proof -
    assume p: "0 < p" "p < 1"
    have "0 < fl64 (1 - p)" using assms(5) p by (rule one_minus_float_pos)
    then show ?thesis
      using c h d p by (simp add: score_def py_int_of_int math_log_def del: of_int_diff)
  qed
  show ?thesis using low high mid by blast
qed

theorem score_domain_error_witness:
  "(0::int) \<le> 3 \<and> (3::int) \<le> 2 ^ 53 \<and> (0::int) \<le> 2 \<and> (2::int) \<le> 2 ^ 53 \<and> fl64 (1 / 2) = 1 / 2 \<and>
   (\<exists>v. score (of_int 3) (of_int 2) (1 / 2) = Inr v)"
proof -
  have f: "fl64 (1 / 2) = 1 / 2" by (rule small_vals)
  show ?thesis
    using score_domain_error [of 3 2 "1 / 2", OF _ _ _ _ f] f by simp
qed

text \<open>
  C2 as stated fails at \<open>hits = 3\<close>, \<open>trials = 2\<close>, \<open>p = 1/2\<close>: the loop of the coefficient is
  empty (\<open>int(2.0 - 3) = -1\<close>) and the call returns \<open>3 log(1/2) - log(1/2)\<close>.
\<close>

theorem score_hits_above_trials_counterexample:
  "score 3 2 (1 / 2) = Inr (0 + 3 * ln (1 / 2) + (- 1) * ln (1 / 2))"
  by (simp add: score_def log_binomial_coeff_def py_float_def int_of_difference_def py_int_def
      math_log_def upto.simps small_vals small_bounds of_rat_divide)

text \<open>
  C4 at a failing input. On the two-row table \<open>toy_df\<close>, with a scorer that never raises,
  the trial of \<open>permute_profiles\<close> raises UnboundLocalError whether or not the table is to
  be stored: it returns no reshuffled table. The trial of \<open>KO_profs_perm\<close>, the same steps
  without the deletion, returns the table, with the entity pairs of the original
  (lemma \<open>KO_profs_perm_f_pairs\<close> shows it for every table and every draw).
\<close>

theorem permute_profiles_trial_raises:
  "permute_profiles_f (\<lambda>p q. Inr 1) 1 True toy_df [2, 0, 1] 0 = Inl (UnboundLocalError ''qa_merged_score_df'') \<and>
   permute_profiles_f (\<lambda>p q. Inr 1) 1 False toy_df [2, 0, 1] 0 = Inl (UnboundLocalError ''qa_merged_score_df'') \<and>
   map_sum id (\<lambda>res. map_option (map (\<lambda>r. (d_ORF_Q r, d_ORF_A r))) (dataframe res))
      (KO_profs_perm_f (\<lambda>p q. Inr 1) 1 toy_df [2, 0, 1] 0) = Inr (Some [(''a'', ''b''), (''a'', ''c'')])"
proof -
  have tot: "\<forall>p q. \<exists>v. (\<lambda>p q. Inr 1 :: error + real) p q = Inr v" by simp
  have ko: "map_sum id (\<lambda>res. map_option (map (\<lambda>r. (d_ORF_Q r, d_ORF_A r))) (dataframe res))
      (KO_profs_perm_f (\<lambda>p q. Inr 1) 1 toy_df [2, 0, 1] 0) = Inr (Some [(''a'', ''b''), (''a'', ''c'')])"
    unfolding KO_profs_perm_f_def df_based_profiles_scorer_def qa_merged_df_def toy_right
    by (simp add: drop_prof_temp_df_def toy_df_def merged_row.defs scored_row.defs)
  show ?thesis
    using permute_profiles_f_raises [OF tot] ko by simp
qed






text \<open>
  C1 at a failing input. \<open>selected\<close> is one row of category 1, \<open>total\<close> four rows of the
  categories 0, 1, 1, 1. The row returned for category 1 holds \<open>P = 1/4\<close> and
  \<open>COUNT_EXP = 1/4\<close>, the background probability of category 0, the first bin of
  \<open>total\<close>; the count of category 1 in \<open>total\<close> over \<open>len(total)\<close> is \<open>3/4\<close>, which the claim
  says the row holds, with the expected count \<open>3/4\<close>.
\<close>

theorem misaligned_background_probability:
  "\<exists>rows. calculate_enrichment (\<lambda>x. x) toy_selected toy_total = Inr rows \<and>
      map (\<lambda>r. (category r, COUNT r, P r, COUNT_EXP r)) rows = [(1, 1, Some (1 / 4), Some (1 / 4))] \<and>
      background_p (length toy_total) (count_list toy_total 1) = Inr (3 / 4) \<and>
      count_exp (length toy_selected) (Some (3 / 4)) = Some (3 / 4)"
proof -
  have t: "toy_selected \<noteq> []" "length toy_selected \<le> length toy_total" "length toy_total \<le> 2 ^ 53"
    "length (groupby_size (\<lambda>x. x) toy_selected) \<le> length (groupby_size (\<lambda>x. x) toy_total)"
    "2 \<le> length (groupby_size (\<lambda>x. x) toy_total)"
    by (simp_all add: toy_bins) (simp add: toy_selected_def)
  obtain rows where ret: "calculate_enrichment (\<lambda>x. x) toy_selected toy_total = Inr rows"
    using calculate_enrichment_returns [OF t] by blast
  obtain series where ser: "map_err (background_p (length toy_total)) (map snd (groupby_size (\<lambda>x. x) toy_total)) = Inr series"
    and rel: "list_all2 (\<lambda>(b, p) r.
               category r = fst b \<and> COUNT r = snd b \<and> P r = p \<and>
               COUNT_EXP r = count_exp (length toy_selected) p \<and>
               score_cell (snd b) (length toy_selected) p = Inr (SCORE r) \<and>
               score_exp_cell (COUNT_EXP r) (length toy_selected) p = Inr (SCORE_EXP r) \<and>
               FOLD_CHNG r = fold_chng (snd b) (COUNT_EXP r))
             (zip (groupby_size (\<lambda>x. x) toy_selected)
                  (align series (length (groupby_size (\<lambda>x. x) toy_selected)))) rows"
    using calculate_enrichment_rows [OF ret] by blast
  have "Inr series = (Inr (map (\<lambda>c. fl64 (of_nat c / of_nat (length toy_total)))
                       (map snd (groupby_size (\<lambda>x. x) toy_total))) :: error + rat list)"
    using background_series [of toy_total "\<lambda>x. x"] ser t by (simp add: toy_bins)
  then have series: "series = [1 / 4, 3 / 4]"
    by (simp add: toy_bins toy_floats)
  have al: "align series (Suc 0) = [Some (1 / 4)]"
    using align_take [of "Suc 0" series] by (simp add: series)
  have z: "zip (groupby_size (\<lambda>x. x) toy_selected)
               (align series (length (groupby_size (\<lambda>x. x) toy_selected)))
             = [((1, 1), Some (1 / 4))]"
    by (simp add: toy_bins al)
  have l1: "length toy_selected = 1" by (rule toy_bins)
  obtain r0 where rows: "rows = [r0]"
    and r0: "category r0 = 1" "COUNT r0 = 1" "P r0 = Some (1 / 4)"
      "COUNT_EXP r0 = count_exp 1 (Some (1 / 4))"
    using rel [unfolded z l1] by (auto simp: list_all2_Cons1)
  have ce: "COUNT_EXP r0 = Some (1 / 4)"
    using r0(4) by (simp add: count_exp_def toy_floats)
  have "count_list toy_total 1 = 3" by (simp add: toy_total_def)
  then have bp: "background_p (length toy_total) (count_list toy_total 1) = Inr (3 / 4)"
    using background_p_value [of 4 3] by (simp add: toy_bins toy_floats)
  have "fl64 (1 * (3 / 4)) = 3 / 4" by code_simp
  then have cx: "count_exp (length toy_selected) (Some (3 / 4)) = Some (3 / 4)"
    by (simp add: count_exp_def toy_bins toy_floats)
  show ?thesis
    using ret rows r0(1,2,3) ce bp cx by simp
qed






end
